theory Spec2Isabelle
  imports Complex_Main "HOL-Library.Word" "HOL-Library.Sublist"
begin

text \<open>
  A model of the crawler command of \<^verbatim>\<open>src/commands/crawler.command.ts\<close>, and proofs
  about it.  The source file holds two revisions of the command; the model follows the
  later one, which has the word-wise reading of text (\<^verbatim>\<open>PARAGRAPHS_OR_WORDS\<close>) and the
  database name with the suffix \<^verbatim>\<open>.JSON\<close>.  Console output and the file that is written
  at the end are left out; the network and the document parser are parameters.
\<close>

section \<open>JavaScript values used by the crawler\<close>

subsection \<open>Strings\<close>

text \<open>
  A JavaScript string is a sequence of 16-bit code units.  \<open>js\<close> turns an ASCII literal
  into such a sequence, so that the constants of \<^verbatim>\<open>crawler.command.ts\<close> can be written
  as they appear in the source.
\<close>

type_synonym jschar = "16 word"
type_synonym jsstring = "jschar list"

definition js :: "string \<Rightarrow> jsstring" where
  "js s = map of_char s"

text \<open>\<^verbatim>\<open>s.startsWith(p)\<close>, \<^verbatim>\<open>s.endsWith(p)\<close>, \<^verbatim>\<open>s.includes(p)\<close>.\<close>

definition startsWith :: "jsstring \<Rightarrow> jsstring \<Rightarrow> bool" where
  "startsWith s p = prefix p s"

definition endsWith :: "jsstring \<Rightarrow> jsstring \<Rightarrow> bool" where
  "endsWith s p = suffix p s"

definition str_includes :: "jsstring \<Rightarrow> jsstring \<Rightarrow> bool" where
  "str_includes s p = sublist p s"

text \<open>\<^verbatim>\<open>s.indexOf(p)\<close>: the index of the first occurrence, or \<open>-1\<close>.\<close>

fun indexOfFrom :: "jsstring \<Rightarrow> jsstring \<Rightarrow> int \<Rightarrow> int" where
  "indexOfFrom [] p i = (if p = [] then i else - 1)"
| "indexOfFrom (c # cs) p i =
     (if prefix p (c # cs) then i else indexOfFrom cs p (i + 1))"

definition indexOf :: "jsstring \<Rightarrow> jsstring \<Rightarrow> int" where
  "indexOf s p = indexOfFrom s p 0"

text \<open>
  \<^verbatim>\<open>s.substring(a, b)\<close> clamps both indices to \<open>0..length\<close> and swaps them when
  \<open>a > b\<close>; \<^verbatim>\<open>s.substring(a)\<close> runs to the end of the string.
\<close>

definition substring :: "jsstring \<Rightarrow> int \<Rightarrow> int \<Rightarrow> jsstring" where
  "substring s a b =
     (let n = int (length s);
          a' = max 0 (min a n);
          b' = max 0 (min b n);
          lo = min a' b';
          hi = max a' b'
      in take (nat (hi - lo)) (drop (nat lo) s))"

definition substringFrom :: "jsstring \<Rightarrow> int \<Rightarrow> jsstring" where
  "substringFrom s a = substring s a (int (length s))"

text \<open>
  \<^verbatim>\<open>s.replace(p, r)\<close> with a string pattern replaces the first occurrence only
  (the replacement used by the crawler holds no \<^verbatim>\<open>$\<close> pattern).
\<close>

fun replace :: "jsstring \<Rightarrow> jsstring \<Rightarrow> jsstring \<Rightarrow> jsstring" where
  "replace [] p r = (if p = [] then r else [])"
| "replace (c # cs) p r =
     (if prefix p (c # cs) then r @ drop (length p) (c # cs) else c # replace cs p r)"

text \<open>
  \<^verbatim>\<open>s.trim()\<close> removes the code units of WhiteSpace and LineTerminator at both ends.
\<close>

definition isWhiteSpace :: "jschar \<Rightarrow> bool" where
  "isWhiteSpace c \<longleftrightarrow>
     (0x0009 \<le> c \<and> c \<le> 0x000D) \<or> c = 0x0020 \<or> c = 0x00A0 \<or> c = 0x1680 \<or>
     (0x2000 \<le> c \<and> c \<le> 0x200A) \<or> c = 0x2028 \<or> c = 0x2029 \<or> c = 0x202F \<or>
     c = 0x205F \<or> c = 0x3000 \<or> c = 0xFEFF"

definition trim :: "jsstring \<Rightarrow> jsstring" where
  "trim s = rev (dropWhile isWhiteSpace (rev (dropWhile isWhiteSpace s)))"

text \<open>
  \<^verbatim>\<open>s.split(sep)\<close> for a separator of one code unit: the empty string gives one
  empty piece, and two separators in a row give an empty piece between them.
\<close>

fun splitStr :: "jsstring \<Rightarrow> jschar \<Rightarrow> jsstring list" where
  "splitStr [] sep = [[]]"
| "splitStr (c # cs) sep =
     (if c = sep then [] # splitStr cs sep
      else (case splitStr cs sep of
              [] \<Rightarrow> [[c]]
            | w # ws \<Rightarrow> (c # w) # ws))"

text \<open>\<^verbatim>\<open>arr.join(sep)\<close>.\<close>

fun join :: "jsstring list \<Rightarrow> jsstring \<Rightarrow> jsstring" where
  "join [] sep = []"
| "join [x] sep = x"
| "join (x # y # ys) sep = x @ sep @ join (y # ys) sep"

subsection \<open>Regular expressions\<close>

text \<open>
  A regular expression is read as a backtracking matcher: applied to the input that is
  left, it returns what remains after each way of matching, in the order in which the
  engine tries them (greedy repetitions try the longest match first).  The first entry
  is the match JavaScript reports.  None of the crawler's expressions has the \<^verbatim>\<open>u\<close>
  flag, so a character class matches one code unit.
\<close>

type_synonym regex = "jsstring \<Rightarrow> jsstring list"

definition cls :: "(jschar \<Rightarrow> bool) \<Rightarrow> regex" where
  "cls P s = (case s of [] \<Rightarrow> [] | c # cs \<Rightarrow> if P c then [cs] else [])"

definition chr :: "jschar \<Rightarrow> regex" where
  "chr x = cls (\<lambda>c. c = x)"

definition seq :: "regex \<Rightarrow> regex \<Rightarrow> regex" where
  "seq r1 r2 s = concat (map r2 (r1 s))"

definition alt :: "regex \<Rightarrow> regex \<Rightarrow> regex" where
  "alt r1 r2 s = r1 s @ r2 s"

definition opt :: "regex \<Rightarrow> regex" where
  "opt r s = r s @ [s]"

fun star :: "(jschar \<Rightarrow> bool) \<Rightarrow> regex" where
  "star P [] = [[]]"
| "star P (c # cs) = (if P c then star P cs @ [c # cs] else [c # cs])"

definition plus :: "(jschar \<Rightarrow> bool) \<Rightarrow> regex" where
  "plus P = seq (cls P) (star P)"

fun lit :: "jsstring \<Rightarrow> regex" where
  "lit [] = (\<lambda>s. [s])"
| "lit (x # xs) = seq (chr x) (lit xs)"

text \<open>
  With the \<^verbatim>\<open>i\<close> flag and no \<^verbatim>\<open>u\<close> flag two code units match when their upper-case
  forms agree, and a code unit above 127 is never taken to an ASCII one: only the ASCII
  letters gain a second case.
\<close>

definition isUpper :: "jschar \<Rightarrow> bool" where
  "isUpper c \<longleftrightarrow> 0x41 \<le> c \<and> c \<le> 0x5A"

definition isLower :: "jschar \<Rightarrow> bool" where
  "isLower c \<longleftrightarrow> 0x61 \<le> c \<and> c \<le> 0x7A"

definition isDigit :: "jschar \<Rightarrow> bool" where
  "isDigit c \<longleftrightarrow> 0x30 \<le> c \<and> c \<le> 0x39"

definition canonicalize :: "jschar \<Rightarrow> jschar" where
  "canonicalize c = (if isLower c then c - 0x20 else c)"

definition chrI :: "jschar \<Rightarrow> regex" where
  "chrI x = cls (\<lambda>c. canonicalize c = canonicalize x)"

fun litI :: "jsstring \<Rightarrow> regex" where
  "litI [] = (\<lambda>s. [s])"
| "litI (x # xs) = seq (chrI x) (litI xs)"

text \<open>\<^verbatim>\<open>re.test(s)\<close> for an expression that starts with \<^verbatim>\<open>^\<close>: some match exists.\<close>

definition test :: "regex \<Rightarrow> jsstring \<Rightarrow> bool" where
  "test re s \<longleftrightarrow> re s \<noteq> []"

text \<open>The end anchor \<^verbatim>\<open>$\<close> (no \<^verbatim>\<open>m\<close> flag): nothing is left.\<close>

definition eos :: regex where
  "eos s = (if s = [] then [s] else [])"

text \<open>
  \<^verbatim>\<open>s.replaceAll(re, r)\<close> for a global expression: the input is scanned from the left,
  every match is replaced and the scan goes on behind it; after an empty match the scan
  moves one code unit forward.
\<close>

function replaceAll :: "jsstring \<Rightarrow> regex \<Rightarrow> jsstring \<Rightarrow> jsstring" where
  "replaceAll [] re r = (if test re [] then r else [])"
| "replaceAll (c # cs) re r =
     (case re (c # cs) of
        [] \<Rightarrow> c # replaceAll cs re r
      | m # _ \<Rightarrow>
          if length m < length (c # cs) then r @ replaceAll m re r
          else r @ c # replaceAll cs re r)"
  by pat_completeness auto
termination
  by (relation "measure (\<lambda>(s, re, r). length s)") auto

subsection \<open>Numbers\<close>

text \<open>
  The command-line option \<^verbatim>\<open>--maxdist\<close> is parsed by \<^verbatim>\<open>Number(val)\<close>, so it can be
  any JavaScript number: \<^verbatim>\<open>NaN\<close>, an infinity or a finite value.  Finite values are
  taken as reals; the crawler only compares them and tests them for truthiness.
\<close>

datatype number = NaN | Num real | PosInfinity | NegInfinity

fun truthy :: "number \<Rightarrow> bool" where
  "truthy NaN = False"
| "truthy (Num r) = (r \<noteq> 0)"
| "truthy PosInfinity = True"
| "truthy NegInfinity = True"

text \<open>\<^verbatim>\<open>a < b\<close> and \<^verbatim>\<open>a <= b\<close>; every comparison with \<^verbatim>\<open>NaN\<close> is false.\<close>

fun num_less :: "number \<Rightarrow> number \<Rightarrow> bool" where
  "num_less NaN b = False"
| "num_less a NaN = False"
| "num_less (Num x) (Num y) = (x < y)"
| "num_less (Num x) PosInfinity = True"
| "num_less (Num x) NegInfinity = False"
| "num_less PosInfinity b = False"
| "num_less NegInfinity (Num y) = True"
| "num_less NegInfinity PosInfinity = True"
| "num_less NegInfinity NegInfinity = False"

fun num_le :: "number \<Rightarrow> number \<Rightarrow> bool" where
  "num_le NaN b = False"
| "num_le a NaN = False"
| "num_le (Num x) (Num y) = (x \<le> y)"
| "num_le (Num x) PosInfinity = True"
| "num_le (Num x) NegInfinity = False"
| "num_le PosInfinity (Num y) = False"
| "num_le PosInfinity PosInfinity = True"
| "num_le PosInfinity NegInfinity = False"
| "num_le NegInfinity b = True"

subsection \<open>Values of any type\<close>

text \<open>
  The body of a response can be any value: \<^verbatim>\<open>axios\<close> hands a body that parses as JSON
  over as the parsed value (a number, a boolean, \<^verbatim>\<open>null\<close>, an object or an array) and
  any other body as a string.  Of an object or array only its JSON text is kept.
  \<open>truthyValue\<close> is the test that \<^verbatim>\<open>&&\<close> and \<^verbatim>\<open>!\<close> make.
\<close>

datatype jsvalue =
  JUndefined | JNull | JBool bool | JNumber number | JString jsstring | JObject jsstring

fun truthyValue :: "jsvalue \<Rightarrow> bool" where
  "truthyValue JUndefined = False"
| "truthyValue JNull = False"
| "truthyValue (JBool b) = b"
| "truthyValue (JNumber n) = truthy n"
| "truthyValue (JString s) = (s \<noteq> [])"
| "truthyValue (JObject j) = True"

text \<open>
  An exception that is thrown, or the rejection of a promise.  The crawler catches neither
  anywhere outside \<^verbatim>\<open>extractUrl\<close> and \<^verbatim>\<open>writeFile\<close>, so which exception it is plays
  no part.
\<close>

datatype error = Thrown

section \<open>Configuration of \<^verbatim>\<open>crawler.command.ts\<close>\<close>

datatype text_mode = Paragraphs | Words

definition EXCLUDE_SCRIPTS :: bool where
  "EXCLUDE_SCRIPTS = True"

definition EXCLUDED_HREFS :: "jsstring list" where
  "EXCLUDED_HREFS = [js ''/'', js ''#'']"

definition SIMULTANEOUS_REQUESTS :: nat where
  "SIMULTANEOUS_REQUESTS = 100"

definition TEXT_SEPARATOR :: jsstring where
  "TEXT_SEPARATOR = js '', ''"

definition PARAGRAPHS_OR_WORDS :: text_mode where
  "PARAGRAPHS_OR_WORDS = Words"

definition NO_URL_MSG :: jsstring where
  "NO_URL_MSG = js ''The --url parameter is mandatory.''"

definition INVALID_URL_MSG :: jsstring where
  "INVALID_URL_MSG = js ''The --url parameter is not a valid URL.''"

definition INVALID_MAXDIST_MSG :: jsstring where
  "INVALID_MAXDIST_MSG = js ''The --maxdist parameter must be greater than 0.''"

definition DEFAULT_MAXDIST :: number where
  "DEFAULT_MAXDIST = Num 1"

definition DEFAULT_DB_NAME :: jsstring where
  "DEFAULT_DB_NAME = js ''crawler.JSON''"

text \<open>\<^verbatim>\<open>/\([^0-9]*\d+[0-9]*\)/g\<close>: numbers in parentheses.\<close>

definition parenNumber :: regex where
  "parenNumber =
     seq (chr 0x28)
       (seq (star (\<lambda>c. \<not> isDigit c))
          (seq (plus isDigit)
             (seq (star isDigit) (chr 0x29))))"

definition EXCLUDE_REGEXS_FROM_TEXT :: "regex list" where
  "EXCLUDE_REGEXS_FROM_TEXT = [parenNumber]"

section \<open>Tools\<close>

subsection \<open>\<^verbatim>\<open>validateUrl\<close>\<close>

text \<open>
  \<^verbatim>\<open>/^(https?|ftp|file):\/\/[-A-Z0-9+&@#\/%?=~_|!:,.;]*[-A-Z0-9+&@#\/%=~_|]/i\<close>
\<close>

definition urlBodyClass :: "jschar \<Rightarrow> bool" where
  "urlBodyClass c \<longleftrightarrow>
     isUpper c \<or> isLower c \<or> isDigit c \<or> c \<in> set (js ''-+&@#/%?=~_|!:,.;'')"

definition urlLastClass :: "jschar \<Rightarrow> bool" where
  "urlLastClass c \<longleftrightarrow>
     isUpper c \<or> isLower c \<or> isDigit c \<or> c \<in> set (js ''-+&@#/%=~_|'')"

definition urlRegex :: regex where
  "urlRegex =
     seq (alt (seq (litI (js ''http'')) (opt (chrI 0x73)))
            (alt (litI (js ''ftp'')) (litI (js ''file''))))
       (seq (lit (js ''://''))
          (seq (star urlBodyClass) (cls urlLastClass)))"

definition validateUrl :: "jsstring \<Rightarrow> bool" where
  "validateUrl url = test urlRegex url"

subsection \<open>\<^verbatim>\<open>pushUnique\<close> and \<^verbatim>\<open>chunkArray\<close>\<close>

definition pushUnique :: "'a list \<Rightarrow> 'a \<Rightarrow> 'a list" where
  "pushUnique arr item = (if item \<in> set arr then arr else arr @ [item])"

text \<open>
  \<^verbatim>\<open>arr.slice(i, i + chunkSize)\<close> for indices that are not negative, and the loop of
  \<^verbatim>\<open>chunkArray\<close>.  The only caller passes \<open>SIMULTANEOUS_REQUESTS\<close>; with a chunk size
  of 0 the source loop would not advance, and the guard \<open>0 < chunkSize\<close> stops the
  model there.
\<close>

definition slice :: "'a list \<Rightarrow> nat \<Rightarrow> nat \<Rightarrow> 'a list" where
  "slice arr i j = take (j - i) (drop i arr)"

function chunkLoop :: "'a list \<Rightarrow> nat \<Rightarrow> nat \<Rightarrow> 'a list list \<Rightarrow> 'a list list" where
  "chunkLoop arr chunkSize i chunks =
     (if i < length arr \<and> 0 < chunkSize
      then chunkLoop arr chunkSize (i + chunkSize) (chunks @ [slice arr i (i + chunkSize)])
      else chunks)"
  by pat_completeness auto
termination
  by (relation "measure (\<lambda>(arr, chunkSize, i, chunks). length arr - i)") auto

declare chunkLoop.simps [simp del]

definition chunkArray :: "'a list \<Rightarrow> nat \<Rightarrow> 'a list list" where
  "chunkArray arr chunkSize = chunkLoop arr chunkSize 0 []"

subsection \<open>The URL normalizer\<close>

definition addHttpIfMissing :: "jsstring \<Rightarrow> jsstring \<Rightarrow> jsstring" where
  "addHttpIfMissing mainUrl href =
     (if startsWith href (js ''http'') then href
      else if startsWith href (js ''/'') \<and> endsWith mainUrl (js ''/'')
        then mainUrl @ substringFrom href 1
      else if \<not> startsWith href (js ''/'') \<and> \<not> endsWith mainUrl (js ''/'')
        then mainUrl @ js ''/'' @ href
      else mainUrl @ href)"

definition deleteParamsFromUrl :: "jsstring \<Rightarrow> jsstring" where
  "deleteParamsFromUrl url =
     (if str_includes url (js ''?'') then substring url 0 (indexOf url (js ''?''))
      else url)"

definition addWWWIfMissing :: "jsstring \<Rightarrow> jsstring" where
  "addWWWIfMissing url =
     (if str_includes url (js ''www.'') then url
      else replace url (js ''://'') (js ''://www.''))"

definition processHrefValue :: "jsstring \<Rightarrow> jsstring \<Rightarrow> jsstring" where
  "processHrefValue mainUrl href =
     deleteParamsFromUrl (addWWWIfMissing (addHttpIfMissing mainUrl href))"

section \<open>The outside world\<close>

text \<open>
  The crawler reaches the network through \<^verbatim>\<open>axios.get\<close> and reads a page through
  \<^verbatim>\<open>cheerio.load\<close>.  Both are parameters of the model.  A request either fails (the
  promise is rejected) or yields a response with a status and a body of any type.
  \<^verbatim>\<open>cheerio.load\<close> is called on whatever body \<^verbatim>\<open>extractUrl\<close> passes on: it either
  throws (as it does on a number) or yields a document, which is the sequence of its
  elements in the order in which \<^verbatim>\<open>$('*').each\<close> visits them.
  Of an element the crawler reads its tag (through \<^verbatim>\<open>.is(...)\<close>), its whole text
  (\<^verbatim>\<open>.text()\<close>), the text that is left once its child elements are removed
  (\<^verbatim>\<open>.clone().children().remove().end().text()\<close>) and its \<^verbatim>\<open>href\<close> attribute.
  The answer to a request depends on the URL only.
\<close>

record response =
  status :: int
  data :: jsvalue

record element =
  tagName :: jsstring
  fullText :: jsstring
  ownText :: jsstring
  hrefAttr :: "jsstring option"

record world =
  httpGet :: "jsstring \<Rightarrow> response option"
  load :: "jsvalue \<Rightarrow> error + element list"

definition isTag :: "element \<Rightarrow> jsstring \<Rightarrow> bool" where
  "isTag e t \<longleftrightarrow> tagName e = t"

section \<open>Fetching and reading one page\<close>

text \<open>
  \<^verbatim>\<open>extractUrl\<close> resolves to the body, whatever its type, when the status is 200 and
  the body is truthy, and to \<^verbatim>\<open>undefined\<close> (here \<open>None\<close>) in every other case, a
  rejected request included.
\<close>

definition extractUrl :: "world \<Rightarrow> jsstring \<Rightarrow> jsvalue option" where
  "extractUrl w url =
     (case httpGet w url of
        None \<Rightarrow> None
      | Some response \<Rightarrow>
          if status response = 200 \<and> truthyValue (data response) then Some (data response)
          else None)"

record page_record =
  url :: jsstring
  title :: jsstring
  texts :: jsstring

record IprocessedPage = page_record +
  links :: "jsstring list"

text \<open>The three variables that the callback of \<^verbatim>\<open>$('*').each\<close> updates.\<close>

record page_vars =
  pageTitle :: jsstring
  findedUrls :: "jsstring list"
  findedText :: "jsstring list"

text \<open>
  \<^verbatim>\<open>/^[^\u0000-\u0040\u005B-\u0060\u007B-\u00BF\u02B0-\u036F\u00D7\u00F7\u2000-\u2BFF]+$/\<close>
\<close>

definition utfWordsClass :: "jschar \<Rightarrow> bool" where
  "utfWordsClass c \<longleftrightarrow>
     \<not> (c \<le> 0x0040 \<or> (0x005B \<le> c \<and> c \<le> 0x0060) \<or> (0x007B \<le> c \<and> c \<le> 0x00BF) \<or>
        (0x02B0 \<le> c \<and> c \<le> 0x036F) \<or> c = 0x00D7 \<or> c = 0x00F7 \<or>
        (0x2000 \<le> c \<and> c \<le> 0x2BFF))"

definition utfWordsRegex :: regex where
  "utfWordsRegex = seq (plus utfWordsClass) eos"

text \<open>The loop over the words of an element's text.\<close>

definition pushWord :: "jsstring \<Rightarrow> jsstring list \<Rightarrow> jsstring list" where
  "pushWord word arr =
     (if word \<noteq> [] \<and> test utfWordsRegex word then pushUnique arr word else arr)"

definition pushText :: "jsstring \<Rightarrow> jsstring list \<Rightarrow> jsstring list" where
  "pushText innerText arr =
     (if PARAGRAPHS_OR_WORDS = Paragraphs then pushUnique arr innerText
      else let words = splitStr innerText 0x20 in fold pushWord words arr)"

text \<open>The \<^verbatim>\<open>else\<close> branch of the title test: the element's own text.\<close>

definition visitText :: "element \<Rightarrow> page_vars \<Rightarrow> page_vars" where
  "visitText e v =
     (let innerText = trim (ownText e);
          innerText = fold (\<lambda>re t. replaceAll t re []) EXCLUDE_REGEXS_FROM_TEXT innerText
      in if innerText \<noteq> [] then v\<lparr>findedText := pushText innerText (findedText v)\<rparr>
         else v)"

text \<open>The test for a link, made for every element that is not skipped.\<close>

definition visitLink :: "jsstring \<Rightarrow> element \<Rightarrow> page_vars \<Rightarrow> page_vars" where
  "visitLink mainUrl e v =
     (if isTag e (js ''a'') then
        (case hrefAttr e of
           None \<Rightarrow> v
         | Some href \<Rightarrow>
             if href \<noteq> [] \<and> href \<notin> set EXCLUDED_HREFS \<and> \<not> startsWith href (js ''mailto'')
             then let normalizedUrl = processHrefValue mainUrl href
                  in if startsWith normalizedUrl mainUrl
                     then v\<lparr>findedUrls := pushUnique (findedUrls v) normalizedUrl\<rparr>
                     else v
             else v)
      else v)"

text \<open>The callback of \<^verbatim>\<open>$('*').each\<close>.\<close>

definition visitElement :: "jsstring \<Rightarrow> element \<Rightarrow> page_vars \<Rightarrow> page_vars" where
  "visitElement mainUrl e v =
     (if EXCLUDE_SCRIPTS \<and> (isTag e (js ''script'') \<or> isTag e (js ''noscript'')) then v
      else visitLink mainUrl e
             (if isTag e (js ''title'') then v\<lparr>pageTitle := fullText e\<rparr>
              else visitText e v))"

text \<open>
  What \<^verbatim>\<open>processPage\<close> does with a document once it is loaded: the walk over its
  elements and the page that is returned.
\<close>

definition readPage :: "jsstring \<Rightarrow> jsstring \<Rightarrow> element list \<Rightarrow> IprocessedPage" where
  "readPage mainUrl u elements =
     (let v = fold (visitElement mainUrl) elements
                \<lparr>pageTitle = [], findedUrls = [], findedText = []\<rparr>
      in \<lparr>url = u, title = pageTitle v,
          texts = join (findedText v) TEXT_SEPARATOR, links = findedUrls v\<rparr>)"

text \<open>
  The promise that \<^verbatim>\<open>processPage\<close> returns: it resolves to \<^verbatim>\<open>null\<close> (here \<open>None\<close>)
  when there is no body, it is rejected when \<^verbatim>\<open>cheerio.load\<close> throws, and it resolves to
  the page otherwise.
\<close>

definition processPage ::
  "world \<Rightarrow> jsstring \<Rightarrow> jsstring \<Rightarrow> error + IprocessedPage option" where
  "processPage w mainUrl u =
     (case extractUrl w u of
        None \<Rightarrow> Inr None
      | Some htmlContent \<Rightarrow>
          (case load w htmlContent of
             Inl e \<Rightarrow> Inl e
           | Inr elements \<Rightarrow> Inr (Some (readPage mainUrl u elements))))"

section \<open>The traversal\<close>

text \<open>
  The variables of \<^verbatim>\<open>runCrawler\<close>.  \<open>stackedOutput\<close> is the output object: its keys in
  the order in which they were created, each with its record.  \<open>newUrlsToVisit\<close> is
  declared anew at every level.  \<open>requested\<close> is not a variable of the source: it lists
  the URLs handed to \<^verbatim>\<open>axios.get\<close>, in the order of the calls.  The two counters are
  integers here; the doubles of the source count exactly up to 2^53.
\<close>

record crawl_state =
  currentLevel :: int
  visitedUrls :: "jsstring list"
  urlsToVisit :: "jsstring list"
  stackedOutput :: "(nat \<times> page_record) list"
  autoincrmentId :: nat
  newUrlsToVisit :: "jsstring list"
  requested :: "jsstring list"

text \<open>\<^verbatim>\<open>obj[key] = value\<close>: an existing key keeps its place, a new one is added last.\<close>

fun assign :: "(nat \<times> 'v) list \<Rightarrow> nat \<Rightarrow> 'v \<Rightarrow> (nat \<times> 'v) list" where
  "assign [] k v = [(k, v)]"
| "assign (p # ps) k v = (if fst p = k then (k, v) # ps else p # assign ps k v)"

definition addLink :: "jsstring \<Rightarrow> crawl_state \<Rightarrow> crawl_state" where
  "addLink link st =
     (if link \<notin> set (visitedUrls st) \<and> link \<notin> set (newUrlsToVisit st)
      then st\<lparr>newUrlsToVisit := newUrlsToVisit st @ [link]\<rparr>
      else st)"

text \<open>The body of the loop over the settled promises of one block.\<close>

definition mergePage :: "IprocessedPage option \<Rightarrow> crawl_state \<Rightarrow> crawl_state" where
  "mergePage pr st =
     (case pr of
        None \<Rightarrow> st
      | Some p \<Rightarrow>
          fold addLink (links p)
            (st\<lparr>stackedOutput :=
                  assign (stackedOutput st) (autoincrmentId st)
                    \<lparr>url = url p, title = title p, texts = texts p\<rparr>,
                autoincrmentId := autoincrmentId st + 1,
                visitedUrls := visitedUrls st @ [url p]\<rparr>))"

text \<open>
  \<^verbatim>\<open>Promise.all\<close>: rejected as soon as one of the promises is rejected, and resolved
  to the results in the order of the promises otherwise.
\<close>

fun promiseAll :: "(error + 'a) list \<Rightarrow> error + 'a list" where
  "promiseAll [] = Inr []"
| "promiseAll (r # rs) =
     (case r of
        Inl e \<Rightarrow> Inl e
      | Inr x \<Rightarrow> (case promiseAll rs of Inl e \<Rightarrow> Inl e | Inr xs \<Rightarrow> Inr (x # xs)))"

text \<open>
  One block: every page of the block is requested, and once all have settled the results
  are merged one by one.  A rejection is not caught: it leaves \<^verbatim>\<open>runCrawler\<close> at once.
\<close>

definition processChunk ::
  "world \<Rightarrow> jsstring \<Rightarrow> jsstring list \<Rightarrow> crawl_state \<Rightarrow> error + crawl_state" where
  "processChunk w mainUrl chunk st =
     (case promiseAll (map (processPage w mainUrl) chunk) of
        Inl e \<Rightarrow> Inl e
      | Inr allPromises \<Rightarrow>
          Inr (fold mergePage allPromises (st\<lparr>requested := requested st @ chunk\<rparr>)))"

text \<open>The loop over the blocks of a level.\<close>

fun processChunks ::
  "world \<Rightarrow> jsstring \<Rightarrow> jsstring list list \<Rightarrow> crawl_state \<Rightarrow> error + crawl_state" where
  "processChunks w mainUrl [] st = Inr st"
| "processChunks w mainUrl (chunk # chunks) st =
     (case processChunk w mainUrl chunk st of
        Inl e \<Rightarrow> Inl e
      | Inr st' \<Rightarrow> processChunks w mainUrl chunks st')"

text \<open>The body of the \<^verbatim>\<open>while\<close> loop: one level.\<close>

definition level :: "world \<Rightarrow> jsstring \<Rightarrow> crawl_state \<Rightarrow> error + crawl_state" where
  "level w mainUrl st =
     (let chunksOfUrls = chunkArray (urlsToVisit st) SIMULTANEOUS_REQUESTS
      in case processChunks w mainUrl chunksOfUrls (st\<lparr>newUrlsToVisit := []\<rparr>) of
           Inl e \<Rightarrow> Inl e
         | Inr st' \<Rightarrow>
             Inr (st'\<lparr>urlsToVisit := newUrlsToVisit st',
                      currentLevel := currentLevel st' + 1\<rparr>))"

text \<open>
  The \<^verbatim>\<open>while\<close> loop.  It ends with the state that it has reached, or with the
  exception that left it; it does not end when \<open>maxdist\<close> is \<^verbatim>\<open>Infinity\<close> and nothing
  is thrown, and then the result is \<open>None\<close>.
\<close>

partial_function (option) crawlLoop ::
  "world \<Rightarrow> jsstring \<Rightarrow> number \<Rightarrow> crawl_state \<Rightarrow> (error + crawl_state) option" where
  "crawlLoop w mainUrl maxdist st =
     (if num_le (Num (of_int (currentLevel st))) maxdist
      then (case level w mainUrl st of
              Inl e \<Rightarrow> Some (Inl e)
            | Inr st' \<Rightarrow> crawlLoop w mainUrl maxdist st')
      else Some (Inr st))"

definition initial :: "jsstring \<Rightarrow> crawl_state" where
  "initial mainUrl =
     \<lparr>currentLevel = 1, visitedUrls = [], urlsToVisit = [mainUrl], stackedOutput = [],
      autoincrmentId = 1, newUrlsToVisit = [], requested = []\<rparr>"

text \<open>
  \<^verbatim>\<open>runCrawler\<close> returns the state in which the loop ends; the source then writes
  \<open>stackedOutput\<close> to the file \<open>dbName\<close>.  When the loop is left by an exception,
  nothing is written and the promise of \<^verbatim>\<open>runCrawler\<close> is rejected.
\<close>

definition runCrawler ::
  "world \<Rightarrow> jsstring \<Rightarrow> number \<Rightarrow> jsstring \<Rightarrow> (error + crawl_state) option" where
  "runCrawler w mainUrl maxdist dbName = crawlLoop w mainUrl maxdist (initial mainUrl)"

section \<open>The command\<close>

text \<open>
  The options as the command-line layer hands them over: an option that was not given is
  \<^verbatim>\<open>undefined\<close>.  \<^verbatim>\<open>run\<close> either prints one message and returns, or runs the crawler
  and ends as the crawler does.
\<close>

record IOptions =
  opt_url :: "jsstring option"
  opt_maxdist :: "number option"
  opt_db :: "jsstring option"

datatype outcome = Reported jsstring | Crawled crawl_state | Rejected error

definition run :: "world \<Rightarrow> IOptions \<Rightarrow> outcome option" where
  "run w options =
     (case opt_url options of
        None \<Rightarrow> Some (Reported NO_URL_MSG)
      | Some u \<Rightarrow>
          if u = [] then Some (Reported NO_URL_MSG)
          else if \<not> validateUrl u then Some (Reported INVALID_URL_MSG)
          else if (case opt_maxdist options of
                     None \<Rightarrow> False
                   | Some m \<Rightarrow> truthy m \<and> num_less m (Num 1))
            then Some (Reported INVALID_MAXDIST_MSG)
          else map_option (case_sum Rejected Crawled)
                 (runCrawler w u
                    (case opt_maxdist options of
                       None \<Rightarrow> DEFAULT_MAXDIST
                     | Some m \<Rightarrow> if truthy m then m else DEFAULT_MAXDIST)
                    (case opt_db options of
                       None \<Rightarrow> DEFAULT_DB_NAME
                     | Some d \<Rightarrow> if d \<noteq> [] then d else DEFAULT_DB_NAME)))"

section \<open>Notions used in the statements\<close>

subsection \<open>A level as one pass over the frontier\<close>

text \<open>
  A URL throws when it is fetched and \<^verbatim>\<open>cheerio.load\<close> throws on its body.  \<open>page\<close> is
  the result of \<^verbatim>\<open>processPage\<close> for a URL that does not throw.  The blocks of a level,
  put end to end, are the frontier; when no URL of the frontier throws, \<open>mergeAll\<close> is
  the state after the pages of the whole frontier have been merged in order, and
  \<open>nextLevel\<close> the state in which the level ends.  \<open>levels n\<close> is the loop run
  for \<open>n\<close> levels.
\<close>

definition throws :: "world \<Rightarrow> jsstring \<Rightarrow> bool" where
  "throws w u = (case extractUrl w u of None \<Rightarrow> False | Some d \<Rightarrow> isl (load w d))"

definition page :: "world \<Rightarrow> jsstring \<Rightarrow> jsstring \<Rightarrow> IprocessedPage option" where
  "page w m u = (case processPage w m u of Inl e \<Rightarrow> None | Inr p \<Rightarrow> p)"

definition mergeAll :: "world \<Rightarrow> jsstring \<Rightarrow> crawl_state \<Rightarrow> crawl_state" where
  "mergeAll w m st =
     fold mergePage (map (page w m) (urlsToVisit st)) (st\<lparr>newUrlsToVisit := []\<rparr>)"

definition nextLevel :: "world \<Rightarrow> jsstring \<Rightarrow> crawl_state \<Rightarrow> crawl_state" where
  "nextLevel w m st =
     (mergeAll w m st)
       \<lparr>requested := requested st @ urlsToVisit st,
        urlsToVisit := newUrlsToVisit (mergeAll w m st),
        currentLevel := currentLevel st + 1\<rparr>"

fun levels :: "world \<Rightarrow> jsstring \<Rightarrow> nat \<Rightarrow> crawl_state \<Rightarrow> error + crawl_state" where
  "levels w m 0 st = Inr st"
| "levels w m (Suc n) st =
     (case level w m st of Inl e \<Rightarrow> Inl e | Inr st' \<Rightarrow> levels w m n st')"

subsection \<open>Distance from the seed\<close>

text \<open>
  \<open>pageLinks\<close> are the links that the crawler reads off a page (none when the page
  cannot be fetched); \<open>hops k\<close> lists the URLs that a path of at most \<open>k\<close> such links
  reaches from the seed.
\<close>

definition pageLinks :: "world \<Rightarrow> jsstring \<Rightarrow> jsstring \<Rightarrow> jsstring list" where
  "pageLinks w m u = (case page w m u of None \<Rightarrow> [] | Some p \<Rightarrow> links p)"

fun hops :: "world \<Rightarrow> jsstring \<Rightarrow> nat \<Rightarrow> jsstring list" where
  "hops w m 0 = [m]"
| "hops w m (Suc k) = hops w m k @ concat (map (pageLinks w m) (hops w m k))"

text \<open>The URLs of the records of the output, in the order of their keys.\<close>

definition storedUrls :: "crawl_state \<Rightarrow> jsstring list" where
  "storedUrls st = map (\<lambda>kv. url (snd kv)) (stackedOutput st)"

subsection \<open>The normalizer in the words of the specification\<close>

text \<open>
  The three steps of the specification, with the test for an href that is already
  absolute left open.  The specification asks for an href that begins with a scheme
  (a letter, then letters, digits, \<^verbatim>\<open>+\<close>, \<^verbatim>\<open>-\<close> or \<^verbatim>\<open>.\<close>, then a colon).
\<close>

fun schemeRest :: "jsstring \<Rightarrow> bool" where
  "schemeRest [] = False"
| "schemeRest (c # cs) =
     (c = 0x3A \<or>
      ((isUpper c \<or> isLower c \<or> isDigit c \<or> c = 0x2B \<or> c = 0x2D \<or> c = 0x2E) \<and>
       schemeRest cs))"

definition beginsWithScheme :: "jsstring \<Rightarrow> bool" where
  "beginsWithScheme href =
     (case href of [] \<Rightarrow> False | c # cs \<Rightarrow> (isUpper c \<or> isLower c) \<and> schemeRest cs)"

definition beginsWithHttp :: "jsstring \<Rightarrow> bool" where
  "beginsWithHttp href = (take 4 href = js ''http'')"

definition spec_absolutize ::
  "(jsstring \<Rightarrow> bool) \<Rightarrow> jsstring \<Rightarrow> jsstring \<Rightarrow> jsstring" where
  "spec_absolutize isAbsolute siteRoot href =
     (let hrefSlash = (href \<noteq> [] \<and> hd href = 0x2F);
          rootSlash = (siteRoot \<noteq> [] \<and> last siteRoot = 0x2F)
      in if isAbsolute href then href
         else if hrefSlash \<and> rootSlash then siteRoot @ tl href
         else if \<not> hrefSlash \<and> \<not> rootSlash then siteRoot @ [0x2F] @ href
         else siteRoot @ href)"

fun insertAfterFirst :: "jsstring \<Rightarrow> jsstring \<Rightarrow> jsstring \<Rightarrow> jsstring" where
  "insertAfterFirst [] mark ins = []"
| "insertAfterFirst (c # cs) mark ins =
     (if prefix mark (c # cs) then mark @ ins @ drop (length mark) (c # cs)
      else c # insertAfterFirst cs mark ins)"

definition spec_canonicalizeHost :: "jsstring \<Rightarrow> jsstring" where
  "spec_canonicalizeHost u =
     (if sublist (js ''www.'') u then u else insertAfterFirst u (js ''://'') (js ''www.''))"

definition spec_stripQuery :: "jsstring \<Rightarrow> jsstring" where
  "spec_stripQuery u = takeWhile (\<lambda>c. c \<noteq> 0x3F) u"

definition spec_normalize ::
  "(jsstring \<Rightarrow> bool) \<Rightarrow> jsstring \<Rightarrow> jsstring \<Rightarrow> jsstring" where
  "spec_normalize isAbsolute siteRoot href =
     spec_stripQuery (spec_canonicalizeHost (spec_absolutize isAbsolute siteRoot href))"

subsection \<open>Word-wise text in the words of the specification\<close>

text \<open>
  The text is cut at every code unit for which \<open>isSep\<close> holds; the pieces that are
  word-like are kept; kept pieces are added behind the list, each once, in the order of
  their first occurrence (\<open>remdups\<close> keeps the last copy, hence the two reversals).
\<close>

fun cutAt :: "(jschar \<Rightarrow> bool) \<Rightarrow> jsstring \<Rightarrow> jsstring list" where
  "cutAt isSep [] = [[]]"
| "cutAt isSep (c # cs) =
     (if isSep c then [] # cutAt isSep cs
      else (case cutAt isSep cs of
              [] \<Rightarrow> [[c]]
            | w # ws \<Rightarrow> (c # w) # ws))"

definition wordLike :: "jsstring \<Rightarrow> bool" where
  "wordLike word \<longleftrightarrow> word \<noteq> [] \<and> list_all utfWordsClass word"

definition appendNew :: "jsstring list \<Rightarrow> jsstring list \<Rightarrow> jsstring list" where
  "appendNew arr units = arr @ rev (remdups (rev (filter (\<lambda>x. x \<notin> set arr) units)))"

definition spec_words ::
  "(jschar \<Rightarrow> bool) \<Rightarrow> jsstring \<Rightarrow> jsstring list \<Rightarrow> jsstring list" where
  "spec_words isSep t arr = appendNew arr (filter wordLike (cutAt isSep t))"

text \<open>The text of an element after trimming and after the expressions are removed.\<close>

definition strippedText :: "element \<Rightarrow> jsstring" where
  "strippedText e = replaceAll (trim (ownText e)) parenNumber []"

subsection \<open>Small sites\<close>

text \<open>
  A site is a list of pages, each a URL with the elements of its document.  Every listed
  page answers with status 200 and a string that stands for the page (the URL itself);
  any other URL fails.  The parser throws on a body that is not a string.
\<close>

definition site :: "(jsstring \<times> element list) list \<Rightarrow> world" where
  "site pages =
     \<lparr>httpGet = (\<lambda>u. case map_of pages u of
                       None \<Rightarrow> None
                     | Some es \<Rightarrow> Some \<lparr>status = 200, data = JString u\<rparr>),
      load = (\<lambda>body. case body of
                        JString html \<Rightarrow>
                          Inr (case map_of pages html of None \<Rightarrow> [] | Some es \<Rightarrow> es)
                      | _ \<Rightarrow> Inl Thrown)\<rparr>"

text \<open>A site whose one page answers with status 200 and the JSON body \<^verbatim>\<open>7\<close>.\<close>

definition numberSite :: world where
  "numberSite =
     \<lparr>httpGet = (\<lambda>u. if u = js ''http://www.x.com/''
                      then Some \<lparr>status = 200, data = JNumber (Num 7)\<rparr> else None),
      load = (\<lambda>body. case body of JString html \<Rightarrow> Inr [] | _ \<Rightarrow> Inl Thrown)\<rparr>"

definition anchor :: "jsstring \<Rightarrow> element" where
  "anchor href = \<lparr>tagName = js ''a'', fullText = [], ownText = [], hrefAttr = Some href\<rparr>"

definition para :: "jsstring \<Rightarrow> element" where
  "para t = \<lparr>tagName = js ''p'', fullText = t, ownText = t, hrefAttr = None\<rparr>"

text \<open>
  The page of the end-to-end scenario: title \<^verbatim>\<open>Home\<close>, one paragraph
  \<^verbatim>\<open>Welcome (42)\<close>, one link to \<^verbatim>\<open>/about\<close>, inside the \<^verbatim>\<open>html\<close>, \<^verbatim>\<open>head\<close> and
  \<^verbatim>\<open>body\<close> elements that every loaded document has.
\<close>

definition homeUrl :: jsstring where
  "homeUrl = js ''http://www.x.com/''"

definition homeDoc :: "element list" where
  "homeDoc =
     [\<lparr>tagName = js ''html'', fullText = js ''HomeWelcome (42)'', ownText = [], hrefAttr = None\<rparr>,
      \<lparr>tagName = js ''head'', fullText = js ''Home'', ownText = [], hrefAttr = None\<rparr>,
      \<lparr>tagName = js ''title'', fullText = js ''Home'', ownText = js ''Home'', hrefAttr = None\<rparr>,
      \<lparr>tagName = js ''body'', fullText = js ''Welcome (42)'', ownText = [], hrefAttr = None\<rparr>,
      para (js ''Welcome (42)''),
      anchor (js ''/about'')]"

definition homeSite :: world where
  "homeSite = site [(homeUrl, homeDoc)]"

definition homeRecord :: page_record where
  "homeRecord = \<lparr>url = homeUrl, title = js ''Home'', texts = js ''Welcome''\<rparr>"

definition homeFinal :: crawl_state where
  "homeFinal =
     \<lparr>currentLevel = 2, visitedUrls = [homeUrl],
      urlsToVisit = [js ''http://www.x.com/about''],
      stackedOutput = [(1, homeRecord)], autoincrmentId = 2,
      newUrlsToVisit = [js ''http://www.x.com/about''], requested = [homeUrl]\<rparr>"

text \<open>A chain of four pages: A links to B, B to C, C to D2.\<close>

definition urlA :: jsstring where "urlA = js ''http://www.x.com/''"
definition urlB :: jsstring where "urlB = js ''http://www.x.com/b''"
definition urlC :: jsstring where "urlC = js ''http://www.x.com/c''"
definition urlD2 :: jsstring where "urlD2 = js ''http://www.x.com/d2''"

definition chainSite :: world where
  "chainSite =
     site [(urlA, [anchor (js ''/b'')]), (urlB, [anchor (js ''/c'')]),
           (urlC, [anchor (js ''/d2'')]), (urlD2, [])]"

text \<open>Three pages: A links to B and to C, and B links to C as well.\<close>

definition siblingSite :: world where
  "siblingSite =
     site [(urlA, [anchor (js ''/b''), anchor (js ''/c'')]), (urlB, [anchor (js ''/c'')]),
           (urlC, [])]"

text \<open>A page whose only link leads to a URL that cannot be fetched.\<close>

definition deadLinkSite :: world where
  "deadLinkSite = site [(urlA, [anchor (js ''/gone'')])]"

definition urlGone :: jsstring where "urlGone = js ''http://www.x.com/gone''"

text \<open>A seed without \<^verbatim>\<open>www.\<close> whose page links to a URL with \<^verbatim>\<open>www.\<close> in its query.\<close>

definition bareUrl :: jsstring where "bareUrl = js ''http://x.com/''"

definition querySite :: world where
  "querySite = site [(bareUrl, [anchor (js ''/a?u=www.b'')])]"

text \<open>A page without a title element.\<close>

definition untitledSite :: world where
  "untitledSite = site [(urlA, [para (js ''Hello'')])]"

subsection \<open>Invariants and sample states\<close>

text \<open>
  The keys of the output are \<open>1, 2, \<dots>\<close> up to the key before the counter, in this order.
\<close>

definition keysDense :: "crawl_state \<Rightarrow> bool" where
  "keysDense st \<longleftrightarrow>
     map fst (stackedOutput st) = [1..<autoincrmentId st] \<and> 0 < autoincrmentId st"

text \<open>The records of the output carry the visited URLs, in the same order.\<close>

definition storeMatches :: "crawl_state \<Rightarrow> bool" where
  "storeMatches st \<longleftrightarrow> keysDense st \<and> storedUrls st = visitedUrls st"

text \<open>
  A URL that \<^verbatim>\<open>processPage\<close> may put into the links of a page: the normalized form of
  some href, and one that starts with the seed.
\<close>

definition kept :: "jsstring \<Rightarrow> jsstring \<Rightarrow> bool" where
  "kept m u \<longleftrightarrow> startsWith u m \<and> (\<exists>h. u = processHrefValue m h)"

text \<open>
  The states that the crawler goes through on the small sites.  Their pages hold links
  only, so every record has an empty title and no text.
\<close>

definition blank :: "jsstring \<Rightarrow> page_record" where
  "blank u = \<lparr>url = u, title = [], texts = []\<rparr>"

definition aboutUrl :: jsstring where "aboutUrl = js ''http://www.x.com/about''"

text \<open>The two words \<^verbatim>\<open>Hello\<close> and \<^verbatim>\<open>world\<close> with a line feed between them.\<close>

definition helloWorld :: jsstring where "helloWorld = js ''Hello'' @ [0x0A] @ js ''world''"

text \<open>The options of \<^verbatim>\<open>crawler --url http://www.x.com/ --maxdist 0\<close>.\<close>

definition zeroOptions :: IOptions where
  "zeroOptions = \<lparr>opt_url = Some homeUrl, opt_maxdist = Some (Num 0), opt_db = None\<rparr>"

definition chain1 :: crawl_state where
  "chain1 = \<lparr>currentLevel = 2, visitedUrls = [urlA], urlsToVisit = [urlB],
      stackedOutput = [(1, \<lparr>url = urlA, title = [], texts = []\<rparr>)], autoincrmentId = 2,
      newUrlsToVisit = [urlB], requested = [urlA]\<rparr>"

definition chain2 :: crawl_state where
  "chain2 = \<lparr>currentLevel = 3, visitedUrls = [urlA, urlB], urlsToVisit = [urlC],
      stackedOutput = [(1, \<lparr>url = urlA, title = [], texts = []\<rparr>), (2, \<lparr>url = urlB, title = [], texts = []\<rparr>)], autoincrmentId = 3,
      newUrlsToVisit = [urlC], requested = [urlA, urlB]\<rparr>"

definition sibling1 :: crawl_state where
  "sibling1 =
     \<lparr>currentLevel = 2, visitedUrls = [urlA], urlsToVisit = [urlB, urlC],
      stackedOutput = [(1, blank urlA)], autoincrmentId = 2,
      newUrlsToVisit = [urlB, urlC], requested = [urlA]\<rparr>"

definition sibling2 :: crawl_state where
  "sibling2 =
     \<lparr>currentLevel = 3, visitedUrls = [urlA, urlB, urlC], urlsToVisit = [urlC],
      stackedOutput = [(1, blank urlA), (2, blank urlB), (3, blank urlC)],
      autoincrmentId = 4, newUrlsToVisit = [urlC], requested = [urlA, urlB, urlC]\<rparr>"

definition sibling3 :: crawl_state where
  "sibling3 =
     \<lparr>currentLevel = 4, visitedUrls = [urlA, urlB, urlC, urlC], urlsToVisit = [],
      stackedOutput = [(1, blank urlA), (2, blank urlB), (3, blank urlC), (4, blank urlC)],
      autoincrmentId = 5, newUrlsToVisit = [], requested = [urlA, urlB, urlC, urlC]\<rparr>"

definition dead1 :: crawl_state where
  "dead1 =
     \<lparr>currentLevel = 2, visitedUrls = [urlA], urlsToVisit = [urlGone],
      stackedOutput = [(1, blank urlA)], autoincrmentId = 2,
      newUrlsToVisit = [urlGone], requested = [urlA]\<rparr>"

definition dead2 :: crawl_state where
  "dead2 =
     \<lparr>currentLevel = 3, visitedUrls = [urlA], urlsToVisit = [],
      stackedOutput = [(1, blank urlA)], autoincrmentId = 2,
      newUrlsToVisit = [], requested = [urlA, urlGone]\<rparr>"

definition query1 :: crawl_state where
  "query1 =
     \<lparr>currentLevel = 2, visitedUrls = [bareUrl], urlsToVisit = [js ''http://x.com/a''],
      stackedOutput = [(1, blank bareUrl)], autoincrmentId = 2,
      newUrlsToVisit = [js ''http://x.com/a''], requested = [bareUrl]\<rparr>"

section \<open>Auxiliary facts\<close>

subsection \<open>Blocks, levels and the loop\<close>

lemma chunkLoop_concat:
  "0 < n \<Longrightarrow> concat (chunkLoop arr n i chunks) = concat chunks @ drop i arr"
proof (induction arr n i chunks rule: chunkLoop.induct)
  case (1 arr chunkSize i chunks)
  show ?case
  proof (cases "i < length arr")
    case True
    have "take chunkSize (drop i arr) @ drop (i + chunkSize) arr = drop i arr"
      by (metis add.commute append_take_drop_id drop_drop)
    with True 1 show ?thesis
      by (subst chunkLoop.simps) (simp add: slice_def)
  next
    case False
    then show ?thesis by (subst chunkLoop.simps) simp
  qed
qed

lemma chunkArray_concat: "0 < n \<Longrightarrow> concat (chunkArray arr n) = arr"
  by (simp add: chunkArray_def chunkLoop_concat)

lemma addLink_requested:
  "addLink l (st\<lparr>requested := r\<rparr>) = (addLink l st)\<lparr>requested := r\<rparr>"
  by (simp add: addLink_def)

lemma fold_addLink_requested:
  "fold addLink ls (st\<lparr>requested := r\<rparr>) = (fold addLink ls st)\<lparr>requested := r\<rparr>"
  by (induction ls arbitrary: st) (simp_all add: addLink_requested)

lemma mergePage_requested:
  "mergePage pr (st\<lparr>requested := r\<rparr>) = (mergePage pr st)\<lparr>requested := r\<rparr>"
  by (cases pr; cases st) (simp_all add: mergePage_def fold_addLink_requested [symmetric])

lemma fold_mergePage_requested:
  "fold mergePage ps (st\<lparr>requested := r\<rparr>) = (fold mergePage ps st)\<lparr>requested := r\<rparr>"
  by (induction ps arbitrary: st) (simp_all add: mergePage_requested)

lemma addLink_keeps:
  "requested (addLink l st) = requested st"
  "currentLevel (addLink l st) = currentLevel st"
  "urlsToVisit (addLink l st) = urlsToVisit st"
  "visitedUrls (addLink l st) = visitedUrls st"
  "stackedOutput (addLink l st) = stackedOutput st"
  "autoincrmentId (addLink l st) = autoincrmentId st"
  by (simp_all add: addLink_def)

lemma fold_addLink_keeps:
  "requested (fold addLink ls st) = requested st"
  "currentLevel (fold addLink ls st) = currentLevel st"
  "urlsToVisit (fold addLink ls st) = urlsToVisit st"
  "visitedUrls (fold addLink ls st) = visitedUrls st"
  "stackedOutput (fold addLink ls st) = stackedOutput st"
  "autoincrmentId (fold addLink ls st) = autoincrmentId st"
  by (induction ls arbitrary: st) (simp_all add: addLink_keeps)

lemma mergePage_keeps:
  "requested (mergePage pr st) = requested st"
  "currentLevel (mergePage pr st) = currentLevel st"
  "urlsToVisit (mergePage pr st) = urlsToVisit st"
  by (cases pr; simp add: mergePage_def fold_addLink_keeps)+

lemma fold_mergePage_keeps:
  "requested (fold mergePage ps st) = requested st"
  "currentLevel (fold mergePage ps st) = currentLevel st"
  "urlsToVisit (fold mergePage ps st) = urlsToVisit st"
  by (induction ps arbitrary: st) (simp_all add: mergePage_keeps)

lemma error_eq: "(e :: error) = Thrown"
  by (cases e) simp

lemma promiseAll_eq:
  "promiseAll rs = (if \<exists>r \<in> set rs. isl r then Inl Thrown else Inr (map projr rs))"
proof (induction rs)
  case Nil
  show ?case by simp
next
  case (Cons r rs)
  show ?case
  proof (cases r)
    case (Inl e)
    then show ?thesis by (simp add: error_eq [of e])
  next
    case (Inr x)
    with Cons show ?thesis by simp
  qed
qed

lemma processPage_eq:
  "processPage w m u = (if throws w u then Inl Thrown else Inr (page w m u))"
proof (cases "extractUrl w u")
  case None
  then show ?thesis by (simp add: processPage_def throws_def page_def)
next
  case (Some d)
  show ?thesis
  proof (cases "load w d")
    case (Inl e)
    with Some show ?thesis by (simp add: processPage_def throws_def page_def error_eq [of e])
  next
    case (Inr es)
    with Some show ?thesis by (simp add: processPage_def throws_def page_def)
  qed
qed

lemma processChunk_eq:
  "processChunk w m c st =
     (if \<exists>u \<in> set c. throws w u then Inl Thrown
      else Inr ((fold mergePage (map (page w m) c) st)\<lparr>requested := requested st @ c\<rparr>))"
proof (cases "\<exists>u \<in> set c. throws w u")
  case True
  then obtain u where "u \<in> set c" and "throws w u" by blast
  then have "processPage w m u \<in> set (map (processPage w m) c)"
    and "isl (processPage w m u)"
    by (simp_all add: processPage_eq)
  then have "\<exists>r \<in> set (map (processPage w m) c). isl r" by blast
  then have "promiseAll (map (processPage w m) c) = Inl Thrown"
    by (simp only: promiseAll_eq if_True)
  with True show ?thesis by (simp add: processChunk_def)
next
  case False
  then have pages: "map (processPage w m) c = map (\<lambda>u. Inr (page w m u)) c"
    by (simp add: processPage_eq)
  have pa: "promiseAll (map (\<lambda>u. Inr (page w m u)) c) = Inr (map (page w m) c)"
    by (simp add: promiseAll_eq comp_def)
  have "processChunk w m c st =
      Inr (fold mergePage (map (page w m) c) (st\<lparr>requested := requested st @ c\<rparr>))"
    by (simp only: processChunk_def pages pa sum.case)
  with False show ?thesis
    by (simp add: fold_mergePage_requested)
qed

lemma processChunks_eq:
  "processChunks w m chunks st =
     (if \<exists>u \<in> set (concat chunks). throws w u then Inl Thrown
      else Inr ((fold mergePage (map (page w m) (concat chunks)) st)
                  \<lparr>requested := requested st @ concat chunks\<rparr>))"
proof (induction chunks arbitrary: st)
  case Nil
  show ?case by simp
next
  case (Cons c cs)
  show ?case
  proof (cases "\<exists>u \<in> set c. throws w u")
    case True
    then show ?thesis by (auto simp: processChunk_eq)
  next
    case False
    let ?st' = "(fold mergePage (map (page w m) c) st)\<lparr>requested := requested st @ c\<rparr>"
    from False have "processChunks w m (c # cs) st = processChunks w m cs ?st'"
      by (simp add: processChunk_eq)
    also have "\<dots> =
        (if \<exists>u \<in> set (concat cs). throws w u then Inl Thrown
         else Inr ((fold mergePage (map (page w m) (concat cs)) ?st')
                     \<lparr>requested := requested ?st' @ concat cs\<rparr>))"
      by (rule Cons.IH)
    finally have eq: "processChunks w m (c # cs) st =
        (if \<exists>u \<in> set (concat cs). throws w u then Inl Thrown
         else Inr ((fold mergePage (map (page w m) (concat cs)) ?st')
                     \<lparr>requested := requested ?st' @ concat cs\<rparr>))" .
    show ?thesis
    proof (cases "\<exists>u \<in> set (concat cs). throws w u")
      case True
      then have "\<exists>u \<in> set (concat (c # cs)). throws w u" by auto
      with True eq show ?thesis by (simp only: if_True)
    next
      case noThrow: False
      with False have "\<not> (\<exists>u \<in> set (concat (c # cs)). throws w u)" by auto
      with noThrow eq show ?thesis
        by (simp only: if_False) (simp add: fold_mergePage_requested)
    qed
  qed
qed

lemma level_eq:
  "level w m st =
     (if \<exists>u \<in> set (urlsToVisit st). throws w u then Inl Thrown
      else Inr (nextLevel w m st))"
proof -
  let ?cs = "chunkArray (urlsToVisit st) SIMULTANEOUS_REQUESTS"
  have c: "concat ?cs = urlsToVisit st"
    by (simp add: chunkArray_concat SIMULTANEOUS_REQUESTS_def)
  have "processChunks w m ?cs (st\<lparr>newUrlsToVisit := []\<rparr>) =
      (if \<exists>u \<in> set (urlsToVisit st). throws w u then Inl Thrown
       else Inr ((fold mergePage (map (page w m) (urlsToVisit st))
                    (st\<lparr>newUrlsToVisit := []\<rparr>))
                   \<lparr>requested := requested st @ urlsToVisit st\<rparr>))"
    unfolding processChunks_eq c by simp
  then show ?thesis
    by (simp add: level_def Let_def nextLevel_def mergeAll_def fold_mergePage_keeps)
qed

lemma level_Inr: "level w m st = Inr st' \<Longrightarrow> st' = nextLevel w m st"
  by (simp add: level_eq split: if_splits)

lemma level_Inl:
  "level w m st = Inl e \<Longrightarrow> \<exists>u \<in> set (urlsToVisit st). throws w u"
  by (simp add: level_eq split: if_splits)

lemma level_no_throw: "\<forall>u. \<not> throws w u \<Longrightarrow> level w m st = Inr (nextLevel w m st)"
  by (simp add: level_eq)

lemma currentLevel_nextLevel: "currentLevel (nextLevel w m st) = currentLevel st + 1"
  by (simp add: nextLevel_def)

lemma levels_Inr: "levels w m n st = Inr st' \<Longrightarrow> st' = (nextLevel w m ^^ n) st"
proof (induction n arbitrary: st)
  case 0
  then show ?case by simp
next
  case (Suc n)
  then obtain st1 where l: "level w m st = Inr st1" and r: "levels w m n st1 = Inr st'"
    by (auto split: sum.splits)
  from l have "st1 = nextLevel w m st" by (rule level_Inr)
  with Suc.IH [OF r] show ?case by (simp only: funpow_Suc_right o_apply)
qed

lemma levels_Inl: "levels w m n st = Inl e \<Longrightarrow> \<exists>u. throws w u"
proof (induction n arbitrary: st)
  case 0
  then show ?case by simp
next
  case (Suc n)
  show ?case
  proof (cases "level w m st")
    case (Inl e')
    then show ?thesis using level_Inl by blast
  next
    case (Inr st1)
    with Suc.prems have "levels w m n st1 = Inl e" by simp
    then show ?thesis by (rule Suc.IH)
  qed
qed

lemma levels_no_throw:
  "\<forall>u. \<not> throws w u \<Longrightarrow> levels w m n st = Inr ((nextLevel w m ^^ n) st)"
proof (induction n arbitrary: st)
  case 0
  show ?case by simp
next
  case (Suc n)
  then have "levels w m (Suc n) st = levels w m n (nextLevel w m st)"
    by (simp add: level_no_throw)
  also have "\<dots> = Inr ((nextLevel w m ^^ n) (nextLevel w m st))"
    using Suc.prems by (rule Suc.IH)
  finally show ?case by (simp only: funpow_Suc_right o_apply)
qed

lemma levels_level:
  "level w m st = Inr st' \<Longrightarrow> levels w m (Suc n) st = levels w m n st'"
  by simp

lemma crawlLoop_Num_aux:
  "n = nat (\<lfloor>r\<rfloor> + 1 - currentLevel st) \<Longrightarrow>
   crawlLoop w m (Num r) st = Some (levels w m n st)"
proof (induction n arbitrary: st)
  case 0
  then have "\<lfloor>r\<rfloor> < currentLevel st" by linarith
  then have "\<not> of_int (currentLevel st) \<le> r"
    by (simp add: le_floor_iff [symmetric])
  then show ?case
    by (subst crawlLoop.simps) simp
next
  case (Suc k)
  then have "currentLevel st \<le> \<lfloor>r\<rfloor>" by linarith
  then have le: "of_int (currentLevel st) \<le> r"
    by (simp add: le_floor_iff [symmetric])
  show ?case
  proof (cases "level w m st")
    case (Inl e)
    with le show ?thesis by (subst crawlLoop.simps) simp
  next
    case (Inr st1)
    then have "st1 = nextLevel w m st" by (rule level_Inr)
    then have "k = nat (\<lfloor>r\<rfloor> + 1 - currentLevel st1)"
      using Suc.prems by (simp add: currentLevel_nextLevel)
    then have "crawlLoop w m (Num r) st1 = Some (levels w m k st1)"
      by (rule Suc.IH)
    with le Inr show ?thesis by (subst crawlLoop.simps) simp
  qed
qed

lemma crawlLoop_Num:
  "crawlLoop w m (Num r) st = Some (levels w m (nat (\<lfloor>r\<rfloor> + 1 - currentLevel st)) st)"
  by (rule crawlLoop_Num_aux) simp

lemma runCrawler_Num:
  "runCrawler w m (Num r) db = Some (levels w m (nat \<lfloor>r\<rfloor>) (initial m))"
  by (simp add: runCrawler_def crawlLoop_Num initial_def)

lemma crawlLoop_levels:
  assumes "crawlLoop w m d st = Some res"
  shows "\<exists>k. res = levels w m k st"
  using assms
proof (rule crawlLoop.raw_induct [rotated 1,
      where P = "\<lambda>w m d st res. \<exists>k. res = levels w m k st"])
  fix f w m d st res
  assume IH: "\<And>w m d st res. f w m d st = Some res \<Longrightarrow> \<exists>k. res = levels w m k st"
    and eq: "(if num_le (Num (real_of_int (currentLevel st))) d
              then case level w m st of Inl e \<Rightarrow> Some (Inl e) | Inr st' \<Rightarrow> f w m d st'
              else Some (Inr st)) = Some res"
  show "\<exists>k. res = levels w m k st"
  proof (cases "num_le (Num (of_int (currentLevel st))) d")
    case False
    with eq have "res = levels w m 0 st" by simp
    then show ?thesis by blast
  next
    case True
    show ?thesis
    proof (cases "level w m st")
      case (Inl e)
      with True eq have "res = Inl e" by simp
      moreover from Inl have "levels w m (Suc 0) st = Inl e" by simp
      ultimately have "res = levels w m (Suc 0) st" by simp
      then show ?thesis by blast
    next
      case (Inr st1)
      with True eq have "f w m d st1 = Some res" by simp
      then obtain k where "res = levels w m k st1" using IH by blast
      with Inr have "res = levels w m (Suc k) st" by simp
      then show ?thesis by blast
    qed
  qed
qed

lemma runCrawler_levels:
  "runCrawler w m d db = Some (Inr st) \<Longrightarrow> \<exists>k. st = (nextLevel w m ^^ k) (initial m)"
proof -
  assume "runCrawler w m d db = Some (Inr st)"
  then obtain k where "Inr st = levels w m k (initial m)"
    unfolding runCrawler_def using crawlLoop_levels by blast
  then have "st = (nextLevel w m ^^ k) (initial m)"
    using levels_Inr [of w m k "initial m" st] by simp
  then show ?thesis by blast
qed

lemma runCrawler_thrown:
  "runCrawler w m d db = Some (Inl e) \<Longrightarrow> \<exists>u. throws w u"
proof -
  assume "runCrawler w m d db = Some (Inl e)"
  then obtain k where "Inl e = levels w m k (initial m)"
    unfolding runCrawler_def using crawlLoop_levels by blast
  then show ?thesis using levels_Inl [of w m k "initial m" e] by simp
qed

lemma runCrawler_nat:
  "runCrawler w m (Num (of_nat D)) db = Some (levels w m D (initial m))"
  by (simp add: runCrawler_Num)

subsection \<open>Keys of the output\<close>

lemma assign_fresh: "k \<notin> fst ` set ps \<Longrightarrow> assign ps k v = ps @ [(k, v)]"
  by (induction ps) auto

lemma assign_next:
  assumes "map fst ps = [1..<n]"
  shows "assign ps n v = ps @ [(n, v)]"
proof -
  have "fst ` set ps = set [1..<n]"
    using assms by (metis set_map)
  then have "n \<notin> fst ` set ps" by simp
  then show ?thesis by (rule assign_fresh)
qed

lemma mergePage_None: "mergePage None st = st"
  by (simp add: mergePage_def)

lemma mergePage_Some_fields:
  assumes "keysDense st"
  shows "stackedOutput (mergePage (Some p) st) =
           stackedOutput st @ [(autoincrmentId st, \<lparr>url = url p, title = title p, texts = texts p\<rparr>)]"
    and "autoincrmentId (mergePage (Some p) st) = Suc (autoincrmentId st)"
    and "visitedUrls (mergePage (Some p) st) = visitedUrls st @ [url p]"
  using assms
  by (simp_all add: mergePage_def fold_addLink_keeps keysDense_def assign_next)

lemma mergePage_keysDense:
  assumes "keysDense st"
  shows "keysDense (mergePage pr st)"
proof (cases pr)
  case None
  with assms show ?thesis by (simp add: mergePage_None)
next
  case (Some p)
  from assms have "0 < autoincrmentId st" and "map fst (stackedOutput st) = [1..<autoincrmentId st]"
    by (simp_all add: keysDense_def)
  then show ?thesis
    unfolding keysDense_def Some mergePage_Some_fields [OF assms]
    by simp
qed

lemma fold_mergePage_keysDense:
  "keysDense st \<Longrightarrow> keysDense (fold mergePage ps st)"
  by (induction ps arbitrary: st) (simp_all add: mergePage_keysDense)

lemma keysDense_nextLevel: "keysDense st \<Longrightarrow> keysDense (nextLevel w m st)"
proof -
  assume "keysDense st"
  then have "keysDense (st\<lparr>newUrlsToVisit := []\<rparr>)" by (simp add: keysDense_def)
  then have "keysDense (mergeAll w m st)"
    unfolding mergeAll_def by (rule fold_mergePage_keysDense)
  then show ?thesis by (simp add: nextLevel_def keysDense_def)
qed

lemma keysDense_levels: "keysDense ((nextLevel w m ^^ k) (initial m))"
  by (induction k) (simp_all add: keysDense_nextLevel, simp add: keysDense_def initial_def)

lemma keysDense_count:
  assumes "keysDense st"
  shows "map fst (stackedOutput st) = [1..<Suc (length (stackedOutput st))]"
    and "autoincrmentId st = Suc (length (stackedOutput st))"
proof -
  from assms have eq: "map fst (stackedOutput st) = [1..<autoincrmentId st]"
    and pos: "0 < autoincrmentId st" by (simp_all add: keysDense_def)
  from eq have "length (stackedOutput st) = autoincrmentId st - 1"
    by (metis length_map length_upt)
  with pos show "autoincrmentId st = Suc (length (stackedOutput st))" by simp
  with eq show "map fst (stackedOutput st) = [1..<Suc (length (stackedOutput st))]" by simp
qed

subsection \<open>Stored URLs and visited URLs\<close>

lemma mergePage_storeMatches:
  assumes "storeMatches st"
  shows "storeMatches (mergePage pr st)"
proof (cases pr)
  case None
  with assms show ?thesis by (simp add: mergePage_None)
next
  case (Some p)
  from assms have kd: "keysDense st" and eq: "storedUrls st = visitedUrls st"
    by (simp_all add: storeMatches_def)
  have "storedUrls (mergePage (Some p) st) = visitedUrls (mergePage (Some p) st)"
    using eq by (simp add: storedUrls_def mergePage_Some_fields [OF kd])
  with kd show ?thesis
    by (simp add: storeMatches_def Some mergePage_keysDense)
qed

lemma fold_mergePage_storeMatches:
  "storeMatches st \<Longrightarrow> storeMatches (fold mergePage ps st)"
  by (induction ps arbitrary: st) (simp_all add: mergePage_storeMatches)

lemma storeMatches_nextLevel: "storeMatches st \<Longrightarrow> storeMatches (nextLevel w m st)"
proof -
  assume "storeMatches st"
  then have "storeMatches (st\<lparr>newUrlsToVisit := []\<rparr>)"
    by (simp add: storeMatches_def keysDense_def storedUrls_def)
  then have "storeMatches (mergeAll w m st)"
    unfolding mergeAll_def by (rule fold_mergePage_storeMatches)
  then show ?thesis by (simp add: nextLevel_def storeMatches_def keysDense_def storedUrls_def)
qed

lemma storeMatches_levels: "storeMatches ((nextLevel w m ^^ k) (initial m))"
  by (induction k)
    (simp_all add: storeMatches_nextLevel, simp add: storeMatches_def keysDense_def storedUrls_def initial_def)

subsection \<open>What one pass adds\<close>

lemma page_url: "page w m u = Some p \<Longrightarrow> url p = u"
  by (auto simp: page_def processPage_def readPage_def Let_def split: option.splits sum.splits)

lemma page_fetched: "page w m u = Some p \<Longrightarrow> extractUrl w u \<noteq> None"
  by (auto simp: page_def processPage_def split: option.splits)

lemma addLink_new_subset:
  "set (newUrlsToVisit (addLink l st)) \<subseteq> insert l (set (newUrlsToVisit st))"
  by (auto simp: addLink_def)

lemma fold_addLink_new_subset:
  "set (newUrlsToVisit (fold addLink ls st)) \<subseteq> set ls \<union> set (newUrlsToVisit st)"
proof (induction ls arbitrary: st)
  case Nil
  show ?case by simp
next
  case (Cons l ls)
  have "set (newUrlsToVisit (fold addLink ls (addLink l st))) \<subseteq>
      set ls \<union> set (newUrlsToVisit (addLink l st))"
    by (rule Cons.IH)
  with addLink_new_subset [of l st] show ?case by auto
qed

lemma mergePage_new_subset:
  "set (newUrlsToVisit (mergePage (Some p) st)) \<subseteq> set (links p) \<union> set (newUrlsToVisit st)"
proof -
  have "set (newUrlsToVisit (mergePage (Some p) st)) \<subseteq>
      set (links p) \<union> set (newUrlsToVisit
        (st\<lparr>stackedOutput :=
              assign (stackedOutput st) (autoincrmentId st)
                \<lparr>url = url p, title = title p, texts = texts p\<rparr>,
            autoincrmentId := autoincrmentId st + 1,
            visitedUrls := visitedUrls st @ [url p]\<rparr>))"
    unfolding mergePage_def option.case by (rule fold_addLink_new_subset)
  then show ?thesis by simp
qed

lemma mergePage_visited:
  "visitedUrls (mergePage pr st) =
     visitedUrls st @ (case pr of None \<Rightarrow> [] | Some p \<Rightarrow> [url p])"
  by (cases pr) (simp_all add: mergePage_def fold_addLink_keeps)

lemma fold_mergePage_pages:
  "set (visitedUrls (fold mergePage (map (page w m) us) st)) =
     set (visitedUrls st) \<union> {u \<in> set us. page w m u \<noteq> None}"
proof (induction us arbitrary: st)
  case Nil
  show ?case by simp
next
  case (Cons u us)
  show ?case
  proof (cases "page w m u")
    case None
    with Cons show ?thesis by (auto simp: mergePage_None)
  next
    case (Some p)
    then have "url p = u" by (rule page_url)
    with Some Cons show ?thesis by (auto simp: mergePage_visited)
  qed
qed

lemma fold_mergePage_new:
  "set (newUrlsToVisit (fold mergePage (map (page w m) us) st)) \<subseteq>
     set (newUrlsToVisit st) \<union> (\<Union>u \<in> set us. set (pageLinks w m u))"
proof (induction us arbitrary: st)
  case Nil
  show ?case by simp
next
  case (Cons u us)
  have step: "set (newUrlsToVisit (mergePage (page w m u) st)) \<subseteq>
      set (newUrlsToVisit st) \<union> set (pageLinks w m u)"
  proof (cases "page w m u")
    case None
    then show ?thesis by (simp add: mergePage_None)
  next
    case (Some p)
    with mergePage_new_subset [of p st] show ?thesis
      by (auto simp: pageLinks_def)
  qed
  have "set (newUrlsToVisit (fold mergePage (map (page w m) us)
          (mergePage (page w m u) st))) \<subseteq>
      set (newUrlsToVisit (mergePage (page w m u) st)) \<union>
        (\<Union>u \<in> set us. set (pageLinks w m u))"
    by (rule Cons.IH)
  with step show ?case by auto
qed

lemma level_visited:
  "set (visitedUrls (nextLevel w m st)) =
     set (visitedUrls st) \<union> {u \<in> set (urlsToVisit st). page w m u \<noteq> None}"
  using fold_mergePage_pages [of w m "urlsToVisit st" "st\<lparr>newUrlsToVisit := []\<rparr>"]
  by (simp add: nextLevel_def mergeAll_def)

lemma level_frontier:
  "set (urlsToVisit (nextLevel w m st)) \<subseteq> (\<Union>u \<in> set (urlsToVisit st). set (pageLinks w m u))"
  using fold_mergePage_new [of w m "urlsToVisit st" "st\<lparr>newUrlsToVisit := []\<rparr>"]
  by (simp add: nextLevel_def mergeAll_def)

lemma level_requested: "requested (nextLevel w m st) = requested st @ urlsToVisit st"
  by (simp add: nextLevel_def)

subsection \<open>Depth\<close>

lemma hops_mono: "k \<le> k' \<Longrightarrow> set (hops w m k) \<subseteq> set (hops w m k')"
  by (induction k' ) (auto simp: le_Suc_eq)

lemma hops_links:
  "u \<in> set (hops w m k) \<Longrightarrow> set (pageLinks w m u) \<subseteq> set (hops w m (Suc k))"
  by auto

lemma levels_within:
  "set (urlsToVisit ((nextLevel w m ^^ k) (initial m))) \<subseteq> set (hops w m k) \<and>
   set (visitedUrls ((nextLevel w m ^^ k) (initial m))) \<subseteq> set (hops w m (k - 1))"
proof (induction k)
  case 0
  show ?case by (simp add: initial_def)
next
  case (Suc k)
  let ?st = "(nextLevel w m ^^ k) (initial m)"
  from Suc have fr: "set (urlsToVisit ?st) \<subseteq> set (hops w m k)"
    and vi: "set (visitedUrls ?st) \<subseteq> set (hops w m (k - 1))" by simp_all
  have "set (urlsToVisit (nextLevel w m ?st)) \<subseteq> set (hops w m (Suc k))"
  proof
    fix l assume "l \<in> set (urlsToVisit (nextLevel w m ?st))"
    with level_frontier [of w m ?st] obtain u
      where "u \<in> set (urlsToVisit ?st)" "l \<in> set (pageLinks w m u)" by auto
    with fr hops_links [of u w m k] show "l \<in> set (hops w m (Suc k))" by blast
  qed
  moreover have "set (visitedUrls (nextLevel w m ?st)) \<subseteq> set (hops w m k)"
    using vi fr hops_mono [of "k - 1" k w m] by (auto simp: level_visited)
  ultimately show ?case by simp
qed

lemma stored_within:
  "set (storedUrls ((nextLevel w m ^^ k) (initial m))) \<subseteq> set (hops w m (k - 1))"
  using levels_within [where w = w and m = m and k = k]
    storeMatches_levels [where w = w and m = m and k = k]
  by (simp add: storeMatches_def)

subsection \<open>Failed fetches\<close>

lemma extractUrl_None_iff:
  "extractUrl w u = None \<longleftrightarrow>
     (case httpGet w u of
        None \<Rightarrow> True
      | Some r \<Rightarrow> status r \<noteq> 200 \<or> \<not> truthyValue (data r))"
  by (simp add: extractUrl_def split: option.splits)

lemma processPage_failed: "extractUrl w u = None \<Longrightarrow> processPage w m u = Inr None"
  by (simp add: processPage_def)

lemma page_failed: "extractUrl w u = None \<Longrightarrow> page w m u = None"
  by (simp add: page_def processPage_failed)

lemma failed_no_throw: "extractUrl w u = None \<Longrightarrow> \<not> throws w u"
  by (simp add: throws_def)

lemma levels_visited_fetched:
  "u \<in> set (visitedUrls ((nextLevel w m ^^ k) (initial m))) \<Longrightarrow> extractUrl w u \<noteq> None"
proof (induction k)
  case 0
  then show ?case by (simp add: initial_def)
next
  case (Suc k)
  then show ?case using page_fetched [of w m u] by (auto simp: level_visited)
qed

subsection \<open>The frontier holds no URL twice\<close>

lemma addLink_distinct:
  "distinct (newUrlsToVisit st) \<Longrightarrow> distinct (newUrlsToVisit (addLink l st))"
  by (simp add: addLink_def)

lemma fold_addLink_distinct:
  "distinct (newUrlsToVisit st) \<Longrightarrow> distinct (newUrlsToVisit (fold addLink ls st))"
  by (induction ls arbitrary: st) (simp_all add: addLink_distinct)

lemma mergePage_distinct:
  "distinct (newUrlsToVisit st) \<Longrightarrow> distinct (newUrlsToVisit (mergePage pr st))"
  by (cases pr) (simp_all add: mergePage_def fold_addLink_distinct)

lemma fold_mergePage_distinct:
  "distinct (newUrlsToVisit st) \<Longrightarrow> distinct (newUrlsToVisit (fold mergePage ps st))"
  by (induction ps arbitrary: st) (simp_all add: mergePage_distinct)

lemma frontier_distinct: "distinct (urlsToVisit ((nextLevel w m ^^ k) (initial m)))"
  by (cases k) (simp_all add: initial_def nextLevel_def mergeAll_def fold_mergePage_distinct)

subsection \<open>The run on the chain site\<close>

lemma site_no_throw: "\<not> throws (site pages) u"
  by (simp add: throws_def extractUrl_def site_def split: option.splits)

lemma site_levels: "levels (site pages) m n st = Inr ((nextLevel (site pages) m ^^ n) st)"
  by (rule levels_no_throw) (simp add: site_no_throw)

lemma chain_level1: "nextLevel chainSite urlA (initial urlA) = chain1"
  by code_simp

lemma chain_level2: "nextLevel chainSite urlA chain1 = chain2"
  by code_simp

lemma chain_levels: "levels chainSite urlA 2 (initial urlA) = Inr chain2"
  unfolding chainSite_def site_levels
  by (simp add: eval_nat_numeral chain_level1 [unfolded chainSite_def]
      chain_level2 [unfolded chainSite_def])

lemma chain_run: "runCrawler chainSite urlA (Num 2) db = Some (Inr chain2)"
  by (simp add: runCrawler_Num chain_levels)

lemma chain_hops: "urlD2 \<notin> set (hops chainSite urlA 2)"
  by code_simp

subsection \<open>String operations\<close>

lemma js_simps:
  "js ''/'' = [0x2F]" "js ''?'' = [0x3F]" "js ''://'' = [0x3A, 0x2F, 0x2F]"
  "js ''www.'' = [0x77, 0x77, 0x77, 0x2E]"
  "js ''://www.'' = js ''://'' @ js ''www.''"
  by (simp_all add: js_def)

lemma startsWith_single: "startsWith h [c] \<longleftrightarrow> h \<noteq> [] \<and> hd h = c"
  by (cases h) (auto simp: startsWith_def)

lemma endsWith_single: "endsWith s [c] \<longleftrightarrow> s \<noteq> [] \<and> last s = c"
  by (cases s rule: rev_cases) (auto simp: endsWith_def)

lemma startsWith_take: "startsWith s p \<longleftrightarrow> take (length p) s = p"
  unfolding startsWith_def
  by (metis append_eq_conv_conj prefix_def take_is_prefix)

lemma startsWith_http: "startsWith href (js ''http'') \<longleftrightarrow> beginsWithHttp href"
  by (simp add: startsWith_take beginsWithHttp_def js_def eval_nat_numeral)

lemma substringFrom_1: "substringFrom h 1 = tl h"
  by (cases h) (simp_all add: substringFrom_def substring_def Let_def)

lemma substring_0: "0 \<le> k \<Longrightarrow> substring u 0 k = take (nat k) u"
  by (simp add: substring_def Let_def min_def max_def)

lemma includes_single: "str_includes u [c] \<longleftrightarrow> c \<in> set u"
  by (induction u) (auto simp: str_includes_def sublist_Cons_right)

lemma indexOfFrom_single:
  "c \<in> set u \<Longrightarrow> indexOfFrom u [c] i = i + int (length (takeWhile (\<lambda>x. x \<noteq> c) u))"
  by (induction u arbitrary: i) auto

lemma deleteParams_takeWhile: "deleteParamsFromUrl u = takeWhile (\<lambda>c. c \<noteq> 0x3F) u"
proof (cases "0x3F \<in> set u")
  case True
  then have "indexOf u [0x3F] = int (length (takeWhile (\<lambda>c. c \<noteq> 0x3F) u))"
    by (simp add: indexOf_def indexOfFrom_single)
  then have "substring u 0 (indexOf u [0x3F]) =
      take (length (takeWhile (\<lambda>c. c \<noteq> 0x3F) u)) u"
    by (simp add: substring_0)
  also have "\<dots> = takeWhile (\<lambda>c. c \<noteq> 0x3F) u"
    by (rule takeWhile_eq_take [symmetric])
  finally show ?thesis
    using True by (simp add: deleteParamsFromUrl_def js_simps(2) includes_single)
next
  case False
  then have "takeWhile (\<lambda>c. c \<noteq> 0x3F) u = u"
    by (simp add: takeWhile_eq_all_conv) blast
  moreover from False have "deleteParamsFromUrl u = u"
    by (simp add: deleteParamsFromUrl_def js_simps(2) includes_single)
  ultimately show ?thesis by (simp only:)
qed

lemma replace_insert:
  "mark \<noteq> [] \<Longrightarrow> replace u mark (mark @ ins) = insertAfterFirst u mark ins"
  by (induction u) simp_all

lemma addWWW_spec: "addWWWIfMissing u = spec_canonicalizeHost u"
proof -
  have "js ''://'' \<noteq> []" by (simp add: js_def)
  then have "replace u (js ''://'') (js ''://www.'') =
      insertAfterFirst u (js ''://'') (js ''www.'')"
    unfolding js_simps(5) by (rule replace_insert)
  then show ?thesis
    by (simp add: addWWWIfMissing_def spec_canonicalizeHost_def str_includes_def)
qed

lemma addHttp_spec: "addHttpIfMissing siteRoot href = spec_absolutize beginsWithHttp siteRoot href"
  by (simp add: addHttpIfMissing_def spec_absolutize_def Let_def startsWith_http js_simps(1)
      startsWith_single endsWith_single substringFrom_1)

subsection \<open>Words\<close>

lemma star_all: "[] \<in> set (star P s) \<longleftrightarrow> list_all P s"
  by (induction s) auto

lemma concat_eos: "concat (map eos xs) \<noteq> [] \<longleftrightarrow> [] \<in> set xs"
  by (induction xs) (auto simp: eos_def)

lemma plus_Cons: "plus P (c # cs) = (if P c then star P cs else [])"
  by (simp add: plus_def seq_def cls_def)

lemma plus_Nil: "plus P [] = []"
  by (simp add: plus_def seq_def cls_def)

lemma test_utfWords_iff: "test utfWordsRegex word \<longleftrightarrow> [] \<in> set (plus utfWordsClass word)"
  unfolding test_def utfWordsRegex_def seq_def by (rule concat_eos)

lemma test_utfWords: "word \<noteq> [] \<and> test utfWordsRegex word \<longleftrightarrow> wordLike word"
  by (cases word) (simp_all add: test_utfWords_iff plus_Cons plus_Nil star_all wordLike_def)

lemma pushWord_wordLike:
  "pushWord word arr = (if wordLike word then pushUnique arr word else arr)"
  using test_utfWords [of word] by (simp add: pushWord_def)

lemma cutAt_split: "cutAt (\<lambda>c. c = sep) t = splitStr t sep"
  by (induction t) simp_all

lemma first_occurrences:
  "rev (remdups (rev (x # ys))) = x # rev (remdups (rev (filter (\<lambda>y. y \<noteq> x) ys)))"
proof -
  have "remdups (zs @ [x]) = remdups (filter (\<lambda>y. y \<noteq> x) zs) @ [x]" for zs
    by (induction zs) auto
  from this [of "rev ys"] show ?thesis
    by (simp add: rev_filter)
qed

lemma fold_pushUnique:
  "fold (\<lambda>x a. pushUnique a x) xs arr = appendNew arr xs"
proof (induction xs arbitrary: arr)
  case Nil
  show ?case by (simp add: appendNew_def)
next
  case (Cons x xs)
  show ?case
  proof (cases "x \<in> set arr")
    case True
    then have "fold (\<lambda>x a. pushUnique a x) (x # xs) arr = fold (\<lambda>x a. pushUnique a x) xs arr"
      by (simp add: pushUnique_def)
    also have "\<dots> = appendNew arr xs" by (rule Cons.IH)
    also have "\<dots> = appendNew arr (x # xs)" using True by (simp add: appendNew_def)
    finally show ?thesis .
  next
    case False
    have filt: "filter (\<lambda>y. y \<noteq> x) (filter (\<lambda>y. y \<notin> set arr) xs) =
        filter (\<lambda>y. y \<notin> set (arr @ [x])) xs"
      by (induction xs) auto
    from False have "fold (\<lambda>x a. pushUnique a x) (x # xs) arr =
        fold (\<lambda>x a. pushUnique a x) xs (arr @ [x])"
      by (simp add: pushUnique_def)
    also have "\<dots> = appendNew (arr @ [x]) xs" by (rule Cons.IH)
    also have "\<dots> = arr @ x # rev (remdups (rev (filter (\<lambda>y. y \<notin> set (arr @ [x])) xs)))"
      by (simp add: appendNew_def)
    also have "\<dots> = arr @ rev (remdups (rev (x # filter (\<lambda>y. y \<notin> set arr) xs)))"
      by (simp only: first_occurrences filt)
    also have "\<dots> = appendNew arr (x # xs)" using False by (simp add: appendNew_def)
    finally show ?thesis .
  qed
qed

lemma fold_pushWord:
  "fold pushWord ws arr = appendNew arr (filter wordLike ws)"
proof -
  have "fold pushWord ws arr = fold (\<lambda>x a. pushUnique a x) (filter wordLike ws) arr"
    by (induction ws arbitrary: arr) (simp_all add: pushWord_wordLike)
  then show ?thesis by (simp add: fold_pushUnique)
qed

lemma pushText_words: "pushText t arr = spec_words (\<lambda>c. c = 0x20) t arr"
  by (simp add: pushText_def PARAGRAPHS_OR_WORDS_def Let_def fold_pushWord spec_words_def
      cutAt_split)

lemma spec_words_empty: "spec_words isSep [] arr = arr"
  by (simp add: spec_words_def appendNew_def wordLike_def)

lemma visitText_words:
  "findedText (visitText e v) = spec_words (\<lambda>c. c = 0x20) (strippedText e) (findedText v)"
  by (simp add: visitText_def EXCLUDE_REGEXS_FROM_TEXT_def Let_def strippedText_def
      pushText_words spec_words_empty)

lemma visitLink_keeps:
  "findedText (visitLink m e v) = findedText v"
  "pageTitle (visitLink m e v) = pageTitle v"
  by (simp_all add: visitLink_def Let_def split: option.splits)

lemma visitText_keeps:
  "pageTitle (visitText e v) = pageTitle v"
  "findedUrls (visitText e v) = findedUrls v"
  by (simp_all add: visitText_def Let_def)

lemma appendNew_distinct: "distinct arr \<Longrightarrow> distinct (appendNew arr xs)"
  by (auto simp: appendNew_def)

subsection \<open>Title\<close>

lemma visitElement_title:
  "\<not> isTag e (js ''title'') \<Longrightarrow> pageTitle (visitElement m e v) = pageTitle v"
  by (simp add: visitElement_def visitLink_keeps visitText_keeps)

lemma fold_visitElement_title:
  "\<forall>e \<in> set es. \<not> isTag e (js ''title'') \<Longrightarrow>
   pageTitle (fold (visitElement m) es v) = pageTitle v"
  by (induction es arbitrary: v) (simp_all add: visitElement_title)

subsection \<open>Where \<^verbatim>\<open>www.\<close> ends up\<close>

lemma replace_absent: "\<not> sublist pat s \<Longrightarrow> replace s pat r = s"
  by (induction s) (auto simp: sublist_Cons_right)

lemma replace_first:
  "sublist pat s \<Longrightarrow> pat \<noteq> [] \<Longrightarrow>
   \<exists>x y. s = x @ pat @ y \<and> \<not> sublist pat x \<and> replace s pat r = x @ r @ y"
proof (induction s)
  case Nil
  then show ?case by simp
next
  case (Cons c cs)
  show ?case
  proof (cases "prefix pat (c # cs)")
    case True
    then obtain y where "c # cs = pat @ y" by (auto simp: prefix_def)
    from True have "replace (c # cs) pat r = r @ drop (length pat) (c # cs)" by simp
    also have "drop (length pat) (c # cs) = y" by (simp add: \<open>c # cs = pat @ y\<close>)
    finally have "c # cs = [] @ pat @ y \<and> \<not> sublist pat [] \<and>
        replace (c # cs) pat r = [] @ r @ y"
      using Cons.prems(2) \<open>c # cs = pat @ y\<close> by simp
    then show ?thesis by blast
  next
    case False
    with Cons.prems have "sublist pat cs" by (simp add: sublist_Cons_right)
    with Cons obtain x y where cs: "cs = x @ pat @ y" and nx: "\<not> sublist pat x"
      and rp: "replace cs pat r = x @ r @ y" by blast
    have "\<not> sublist pat (c # x)"
    proof
      assume "sublist pat (c # x)"
      with nx have "prefix pat (c # x)" by (simp add: sublist_Cons_right)
      then have "prefix pat ((c # x) @ pat @ y)" by (rule prefix_prefix)
      with False cs show False by simp
    qed
    with False cs rp have "c # cs = (c # x) @ pat @ y \<and> \<not> sublist pat (c # x) \<and>
        replace (c # cs) pat r = (c # x) @ r @ y"
      by simp
    then show ?thesis by blast
  qed
qed

lemma www_inserted:
  assumes seed: "str_includes m (js ''://'')"
    and adm: "startsWith (processHrefValue m h) m"
    and none: "\<not> str_includes (addHttpIfMissing m h) (js ''www.'')"
  shows "str_includes (processHrefValue m h) (js ''www.'')"
proof -
  define a where "a = addHttpIfMissing m h"
  define v where "v = replace a (js ''://'') (js ''://www.'')"
  define u where "u = takeWhile (\<lambda>c. c \<noteq> 0x3F) v"
  have u: "processHrefValue m h = u"
    using none
    by (simp add: processHrefValue_def addWWWIfMissing_def deleteParams_takeWhile
        u_def v_def a_def)
  have sep: "js ''://'' \<noteq> []" and q_sep: "0x3F \<notin> set (js ''://'')"
    and q_www: "0x3F \<notin> set (js ''www.'')"
    by (simp_all add: js_def)
  from seed have "sublist (js ''://'') m" by (simp add: str_includes_def)
  moreover from adm have "sublist m u" by (simp add: startsWith_def u)
  ultimately have sep_u: "sublist (js ''://'') u" by (rule sublist_order.order.trans)
  moreover have "sublist u v" unfolding u_def by (rule sublist_takeWhile)
  ultimately have sep_v: "sublist (js ''://'') v" by (rule sublist_order.order.trans)
  have "sublist (js ''://'') a"
  proof (rule ccontr)
    assume "\<not> sublist (js ''://'') a"
    then have "v = a" by (simp add: v_def replace_absent)
    with sep_v \<open>\<not> sublist (js ''://'') a\<close> show False by simp
  qed
  with sep obtain x y where a: "a = x @ js ''://'' @ y" and nx: "\<not> sublist (js ''://'') x"
    and v: "v = x @ js ''://www.'' @ y"
    using replace_first [of "js ''://''" a "js ''://www.''"] by (auto simp: v_def)
  have qx: "0x3F \<notin> set x"
  proof
    assume "0x3F \<in> set x"
    then have "u = takeWhile (\<lambda>c. c \<noteq> 0x3F) x" by (simp add: u_def v)
    then have "sublist u x" by simp
    with sep_u have "sublist (js ''://'') x" by (rule sublist_order.order.trans)
    with nx show False ..
  qed
  have "u = (x @ js ''://'' @ js ''www.'') @ takeWhile (\<lambda>c. c \<noteq> 0x3F) y"
    unfolding u_def v js_simps(5) using qx q_sep q_www
    by (subst append_assoc [symmetric], subst append_assoc [symmetric],
        subst takeWhile_append2) auto
  then have "u = (x @ js ''://'') @ js ''www.'' @ takeWhile (\<lambda>c. c \<noteq> 0x3F) y" by simp
  then have "sublist (js ''www.'') u" by (simp only: sublist_appendI)
  then show ?thesis by (simp add: str_includes_def u)
qed

subsection \<open>Where the links of a page come from\<close>

lemma visitLink_kept:
  "l \<in> set (findedUrls (visitLink m e v)) \<Longrightarrow> l \<in> set (findedUrls v) \<or> kept m l"
  by (auto simp: visitLink_def Let_def pushUnique_def kept_def split: option.splits if_splits)

lemma visitElement_cases:
  "visitElement m e v = v \<or>
   (\<exists>v'. findedUrls v' = findedUrls v \<and> visitElement m e v = visitLink m e v')"
proof (cases "EXCLUDE_SCRIPTS \<and> (isTag e (js ''script'') \<or> isTag e (js ''noscript''))")
  case True
  then show ?thesis by (simp add: visitElement_def)
next
  case False
  show ?thesis
  proof (cases "isTag e (js ''title'')")
    case True
    with False have "visitElement m e v = visitLink m e (v\<lparr>pageTitle := fullText e\<rparr>)"
      unfolding visitElement_def by (simp only: if_False if_True)
    moreover have "findedUrls (v\<lparr>pageTitle := fullText e\<rparr>) = findedUrls v" by simp
    ultimately show ?thesis by blast
  next
    case notitle: False
    with False have "visitElement m e v = visitLink m e (visitText e v)"
      unfolding visitElement_def by (simp only: if_False)
    moreover have "findedUrls (visitText e v) = findedUrls v" by (simp add: visitText_keeps)
    ultimately show ?thesis by blast
  qed
qed

lemma visitElement_kept:
  assumes "l \<in> set (findedUrls (visitElement m e v))"
  shows "l \<in> set (findedUrls v) \<or> kept m l"
proof -
  from visitElement_cases [of m e v] show ?thesis
  proof
    assume "visitElement m e v = v"
    with assms show ?thesis by simp
  next
    assume "\<exists>v'. findedUrls v' = findedUrls v \<and> visitElement m e v = visitLink m e v'"
    then obtain v' where same: "findedUrls v' = findedUrls v"
      and eq: "visitElement m e v = visitLink m e v'" by blast
    from assms eq have "l \<in> set (findedUrls (visitLink m e v'))" by simp
    then have "l \<in> set (findedUrls v') \<or> kept m l" by (rule visitLink_kept)
    with same show ?thesis by simp
  qed
qed

lemma fold_visitElement_kept:
  "l \<in> set (findedUrls (fold (visitElement m) es v)) \<Longrightarrow> l \<in> set (findedUrls v) \<or> kept m l"
proof (induction es arbitrary: v)
  case Nil
  then show ?case by simp
next
  case (Cons e es)
  then have "l \<in> set (findedUrls (visitElement m e v)) \<or> kept m l" by simp
  then show ?case using visitElement_kept by blast
qed

lemma pageLinks_kept: "l \<in> set (pageLinks w m u) \<Longrightarrow> kept m l"
  using fold_visitElement_kept [of l m _ "\<lparr>pageTitle = [], findedUrls = [], findedText = []\<rparr>"]
  by (auto simp: pageLinks_def page_def processPage_def readPage_def Let_def
      split: option.splits sum.splits)

lemma level_frontier_kept: "l \<in> set (urlsToVisit (nextLevel w m st)) \<Longrightarrow> kept m l"
  using level_frontier [of w m st] pageLinks_kept by blast

lemma levels_kept:
  "u \<in> set (urlsToVisit ((nextLevel w m ^^ k) (initial m))) \<union>
       set (requested ((nextLevel w m ^^ k) (initial m))) \<Longrightarrow> u = m \<or> kept m u"
proof (induction k arbitrary: u)
  case 0
  then show ?case by (simp add: initial_def)
next
  case (Suc k)
  then show ?case
    using level_frontier_kept [of u w m "(nextLevel w m ^^ k) (initial m)"]
    by (auto simp: level_requested)
qed

lemma levels_visited_requested:
  "set (visitedUrls ((nextLevel w m ^^ k) (initial m))) \<subseteq> set (requested ((nextLevel w m ^^ k) (initial m)))"
  by (induction k) (auto simp: initial_def level_visited level_requested)

subsection \<open>Runs on the small sites\<close>

lemma sibling_steps:
  "nextLevel siblingSite urlA (initial urlA) = sibling1"
  "nextLevel siblingSite urlA sibling1 = sibling2"
  "nextLevel siblingSite urlA sibling2 = sibling3"
  by code_simp+

lemma sibling_levels:
  "levels siblingSite urlA 2 (initial urlA) = Inr sibling2"
  "levels siblingSite urlA 3 (initial urlA) = Inr sibling3"
  unfolding siblingSite_def site_levels
  by (simp_all add: eval_nat_numeral sibling_steps [unfolded siblingSite_def])

lemma dead_steps:
  "nextLevel deadLinkSite urlA (initial urlA) = dead1"
  "nextLevel deadLinkSite urlA dead1 = dead2"
  by code_simp+

lemma dead_levels: "levels deadLinkSite urlA 2 (initial urlA) = Inr dead2"
  unfolding deadLinkSite_def site_levels
  by (simp add: eval_nat_numeral dead_steps [unfolded deadLinkSite_def])

lemma query_step: "nextLevel querySite bareUrl (initial bareUrl) = query1"
  by code_simp

lemma query_levels: "levels querySite bareUrl 1 (initial bareUrl) = Inr query1"
  unfolding querySite_def site_levels
  by (simp add: query_step [unfolded querySite_def])

lemma home_readPage:
  "fold mergePage [Some (readPage homeUrl homeUrl homeDoc)]
     ((initial homeUrl)\<lparr>newUrlsToVisit := []\<rparr>) =
   homeFinal\<lparr>currentLevel := 1, urlsToVisit := [homeUrl], requested := []\<rparr>"
  by code_simp

lemma home_level:
  assumes "httpGet w homeUrl = Some \<lparr>status = 200, data = JString html\<rparr>" and "html \<noteq> []"
    and "load w (JString html) = Inr homeDoc"
  shows "level w homeUrl (initial homeUrl) = Inr homeFinal"
proof -
  from assms have ex: "extractUrl w homeUrl = Some (JString html)"
    by (simp add: extractUrl_def)
  with assms have "page w homeUrl homeUrl = Some (readPage homeUrl homeUrl homeDoc)"
    by (simp add: page_def processPage_def)
  then have "mergeAll w homeUrl (initial homeUrl) =
      homeFinal\<lparr>currentLevel := 1, urlsToVisit := [homeUrl], requested := []\<rparr>"
    using home_readPage by (simp add: mergeAll_def initial_def)
  then have "nextLevel w homeUrl (initial homeUrl) = homeFinal"
    by (simp add: nextLevel_def homeFinal_def initial_def)
  moreover from ex assms have "\<not> throws w homeUrl" by (simp add: throws_def)
  ultimately show ?thesis by (simp add: level_eq initial_def)
qed

lemma homeSite_page:
  "httpGet homeSite homeUrl = Some \<lparr>status = 200, data = JString homeUrl\<rparr>"
  "homeUrl \<noteq> []" "load homeSite (JString homeUrl) = Inr homeDoc"
  by (simp_all add: homeSite_def site_def) (simp add: homeUrl_def js_def)

lemma home_run:
  assumes "httpGet w homeUrl = Some \<lparr>status = 200, data = JString html\<rparr>" and "html \<noteq> []"
    and "load w (JString html) = Inr homeDoc"
  shows "runCrawler w homeUrl (Num 1) db = Some (Inr homeFinal)"
  using home_level [OF assms] by (simp add: runCrawler_Num)

text \<open>A body that is a number: the parser throws, and the run ends without output.\<close>

lemma number_run: "runCrawler numberSite urlA (Num 1) db = Some (Inl Thrown)"
proof -
  have "throws numberSite urlA" by code_simp
  then have "level numberSite urlA (initial urlA) = Inl Thrown"
    by (simp add: level_eq initial_def)
  then show ?thesis by (simp add: runCrawler_Num)
qed

lemma run_rejects:
  "opt_url options = None \<or> opt_url options = Some [] \<Longrightarrow>
     run w options = Some (Reported NO_URL_MSG)"
  "opt_url options = Some u \<Longrightarrow> u \<noteq> [] \<Longrightarrow> \<not> validateUrl u \<Longrightarrow>
     run w options = Some (Reported INVALID_URL_MSG)"
  "opt_url options = Some u \<Longrightarrow> u \<noteq> [] \<Longrightarrow> validateUrl u \<Longrightarrow>
     opt_maxdist options = Some (Num r) \<Longrightarrow> r < 1 \<Longrightarrow> r \<noteq> 0 \<Longrightarrow>
     run w options = Some (Reported INVALID_MAXDIST_MSG)"
  "opt_url options = Some u \<Longrightarrow> u \<noteq> [] \<Longrightarrow> validateUrl u \<Longrightarrow>
     opt_maxdist options = None \<Longrightarrow> opt_db options = Some db \<Longrightarrow> db \<noteq> [] \<Longrightarrow>
     run w options = map_option (case_sum Rejected Crawled) (runCrawler w u (Num 1) db)"
  by (auto simp: run_def DEFAULT_MAXDIST_def)

lemma chain_stored: "storedUrls chain2 = [urlA, urlB]"
  by (simp add: storedUrls_def chain2_def)

lemma dead_run: "runCrawler deadLinkSite urlA (Num 2) db = Some (Inr dead2)"
  by (simp add: runCrawler_Num dead_levels)

lemma dead_fetch: "extractUrl deadLinkSite urlGone = None"
  by code_simp

lemma home_nextLevel: "(nextLevel homeSite homeUrl ^^ 1) (initial homeUrl) = homeFinal"
  using level_Inr [OF home_level [OF homeSite_page]] by simp

subsection \<open>Depths that are not finite\<close>

text \<open>
  With the depth \<^verbatim>\<open>Infinity\<close> the loop never ends with a state; with \<^verbatim>\<open>NaN\<close>
  or \<^verbatim>\<open>-Infinity\<close> it is not entered.
\<close>

lemma crawlLoop_finite:
  assumes "crawlLoop w m d st = Some res"
  shows "d = PosInfinity \<longrightarrow> isl res"
  using assms
proof (rule crawlLoop.raw_induct [rotated 1,
      where P = "\<lambda>w m d st res. d = PosInfinity \<longrightarrow> isl res"])
  fix f w m d st res
  assume IH: "\<And>w m d st res. f w m d st = Some res \<Longrightarrow> d = PosInfinity \<longrightarrow> isl res"
    and eq: "(if num_le (Num (real_of_int (currentLevel st))) d
              then case level w m st of Inl e \<Rightarrow> Some (Inl e) | Inr st' \<Rightarrow> f w m d st'
              else Some (Inr st)) = Some res"
  show "d = PosInfinity \<longrightarrow> isl res"
  proof
    assume inf: "d = PosInfinity"
    show "isl res"
    proof (cases "level w m st")
      case (Inl e)
      with inf eq show ?thesis by auto
    next
      case (Inr st1)
      with inf eq have "f w m d st1 = Some res" by simp
      with inf IH show ?thesis by blast
    qed
  qed
qed

lemma crawlLoop_PosInfinity: "crawlLoop w m PosInfinity st \<noteq> Some (Inr st')"
  using crawlLoop_finite [of w m PosInfinity st "Inr st'"] by auto

lemma crawlLoop_no_level:
  "crawlLoop w m NaN st = Some (Inr st)" "crawlLoop w m NegInfinity st = Some (Inr st)"
  by (subst crawlLoop.simps, simp)+

subsection \<open>The words of an element\<close>

text \<open>
  What the crawler does with the text of an element that is not a script, noscript or
  title element: the trimmed and stripped text is cut at every space U+0020, and the
  word-like pieces are added behind the list, each once.
\<close>

lemma element_words:
  assumes "\<not> isTag e (js ''script'')" and "\<not> isTag e (js ''noscript'')"
    and "\<not> isTag e (js ''title'')"
  shows "findedText (visitElement m e v) =
           spec_words (\<lambda>c. c = 0x20) (strippedText e) (findedText v)"
  using assms
  by (simp add: visitElement_def visitLink_keeps visitText_words)

lemma home_levels: "levels homeSite homeUrl 1 (initial homeUrl) = Inr homeFinal"
  using home_level [OF homeSite_page] by simp

lemma processChunk_failed:
  assumes "extractUrl w u = None"
  shows "processChunk w m (u # us) st =
           processChunk w m us (st\<lparr>requested := requested st @ [u]\<rparr>)"
  using assms
  by (simp add: processChunk_eq failed_no_throw page_failed mergePage_None
      fold_mergePage_requested)

section \<open>The claims\<close>

text \<open>
  Claim C1 asks that no URL is stored twice and that a frontier never holds a URL that
  is already visited.  The crawler tests a link against the visited URLs at the moment
  it reads the link, and a URL of the current frontier that is still to be merged is
  not visited yet.  The statement below runs the crawler on the site where A links to B
  and C, and B links to C, with depth 3: the run returns; C is stored under the keys 3
  and 4; the frontier of level 3 is C alone, and C is already among the visited URLs when
  that level starts.
\<close>

theorem visited_url_fetched_again:
  "runCrawler siblingSite urlA (Num 3) db = Some (Inr sibling3) \<and>
   storedUrls sibling3 = [urlA, urlB, urlC, urlC] \<and>
   levels siblingSite urlA 2 (initial urlA) = Inr sibling2 \<and>
   urlsToVisit sibling2 = [urlC] \<and> urlC \<in> set (visitedUrls sibling2)"
proof -
  have "runCrawler siblingSite urlA (Num 3) db = Some (Inr sibling3)"
    by (simp add: runCrawler_Num sibling_levels)
  moreover have "storedUrls sibling3 = [urlA, urlB, urlC, urlC]"
    by (simp add: storedUrls_def sibling3_def blank_def)
  moreover have "urlsToVisit sibling2 = [urlC] \<and> urlC \<in> set (visitedUrls sibling2)"
    by (simp add: sibling2_def)
  ultimately show ?thesis using sibling_levels(1) by blast
qed

text \<open>
  Claim C2: in every run of the crawler that returns, the keys of the output are exactly
  \<open>1, 2, \<dots>, n\<close> in this order, where \<open>n\<close> is the number of records, and the counter
  that hands out the keys stands at \<open>n + 1\<close>: the keys are distinct, increasing from 1,
  without gap and without reuse.
\<close>

theorem ids_dense:
  assumes "runCrawler w m d db = Some (Inr st)"
  shows "map fst (stackedOutput st) = [1..<Suc (length (stackedOutput st))] \<and>
         autoincrmentId st = Suc (length (stackedOutput st))"
proof -
  from assms obtain k where "st = (nextLevel w m ^^ k) (initial m)"
    using runCrawler_levels by blast
  then have "keysDense st" by (simp add: keysDense_levels)
  then show ?thesis using keysDense_count by blast
qed

text \<open>
  C2 on the chain site with depth 2: the run returns and its two records have the keys
  1 and 2.
\<close>

theorem ids_dense_witness:
  "runCrawler chainSite urlA (Num 2) [] = Some (Inr chain2) \<and>
   map fst (stackedOutput chain2) = [1..<Suc (length (stackedOutput chain2))] \<and>
   autoincrmentId chain2 = Suc (length (stackedOutput chain2))"
  using ids_dense [OF chain_run [of "[]"]] chain_run [of "[]"] by simp

text \<open>
  Claim C3: with depth \<open>D\<close>, a URL that no path of at most \<open>D\<close> links reaches from the
  seed is not stored; and on the chain A, B, C, D2 with depth 2 the run returns with the
  records of A and B only.
\<close>

theorem depth_bound:
  "(\<forall>st u. runCrawler w m (Num (of_nat D)) db = Some (Inr st) \<longrightarrow>
      u \<notin> set (hops w m D) \<longrightarrow> u \<notin> set (storedUrls st)) \<and>
   (\<exists>st. runCrawler chainSite urlA (Num 2) db = Some (Inr st) \<and>
      storedUrls st = [urlA, urlB])"
proof (intro conjI allI impI)
  fix st u
  assume "runCrawler w m (Num (of_nat D)) db = Some (Inr st)"
    and far: "u \<notin> set (hops w m D)"
  then have "levels w m D (initial m) = Inr st" by (simp add: runCrawler_nat)
  then have "st = (nextLevel w m ^^ D) (initial m)" by (rule levels_Inr)
  then have "set (storedUrls st) \<subseteq> set (hops w m (D - 1))" by (simp only: stored_within)
  also have "\<dots> \<subseteq> set (hops w m D)" by (rule hops_mono) simp
  finally show "u \<notin> set (storedUrls st)" using far by blast
next
  show "\<exists>st. runCrawler chainSite urlA (Num 2) db = Some (Inr st) \<and>
      storedUrls st = [urlA, urlB]"
    using chain_run chain_stored by blast
qed

text \<open>
  C3 on the chain site with depth 2: D2 is more than two links away from A, and it is
  not stored.
\<close>

theorem depth_bound_witness:
  "runCrawler chainSite urlA (Num (of_nat 2)) [] = Some (Inr chain2) \<and>
   urlD2 \<notin> set (hops chainSite urlA 2) \<and> urlD2 \<notin> set (storedUrls chain2)"
proof -
  have run: "runCrawler chainSite urlA (Num (of_nat 2)) [] = Some (Inr chain2)"
    using chain_run [of "[]"] by simp
  with depth_bound [of chainSite urlA 2 "[]"] chain_hops show ?thesis by blast
qed

text \<open>
  Claim C4 asks that a depth that is not positive is reported before the traversal
  starts.  \<^verbatim>\<open>run\<close> tests \<^verbatim>\<open>maxdist && maxdist < 1\<close>, and 0 is falsy: the statement
  below is the run with \<^verbatim>\<open>--maxdist 0\<close> on the site of the end-to-end scenario.  No
  message is reported; the crawler runs with the default depth 1 and requests the seed.
\<close>

theorem maxdist_zero_crawls:
  "run homeSite zeroOptions = Some (Crawled homeFinal) \<and> requested homeFinal = [homeUrl]"
proof -
  have "validateUrl homeUrl" by code_simp
  moreover have "homeUrl \<noteq> []" by (rule homeSite_page)
  moreover have "runCrawler homeSite homeUrl (Num 1) DEFAULT_DB_NAME = Some (Inr homeFinal)"
    by (rule home_run [OF homeSite_page])
  ultimately show ?thesis
    by (simp add: run_def zeroOptions_def DEFAULT_MAXDIST_def homeFinal_def)
qed

text \<open>
  Claim C5 asks that the text is split at whitespace and that every word-like piece is
  kept.  The crawler splits at the space U+0020 alone (the source's comment: it splits
  the text in words).  The statement below is the visit of a paragraph whose text is
  \<^verbatim>\<open>Hello\<close>, a line feed, \<^verbatim>\<open>world\<close>: the split leaves the text in one piece, the
  piece fails the test for words because of the line feed, and nothing is kept; a split
  at whitespace gives the two pieces \<^verbatim>\<open>Hello\<close> and \<^verbatim>\<open>world\<close>, both word-like.
\<close>

theorem words_lost_at_line_feed:
  "splitStr (strippedText (para helloWorld)) 0x20 = [helloWorld] \<and>
   findedText (visitElement homeUrl (para helloWorld)
       \<lparr>pageTitle = [], findedUrls = [], findedText = []\<rparr>) = [] \<and>
   spec_words isWhiteSpace (strippedText (para helloWorld)) [] = [js ''Hello'', js ''world'']"
  by code_simp



text \<open>
  Claim C7, with the test of the first step read as the source has it: the normalizer is
  the composition of the three steps of the specification, where an href counts as
  absolute when its first four code units are \<^verbatim>\<open>http\<close>.
\<close>

theorem normalize_steps:
  "processHrefValue siteRoot href = spec_normalize beginsWithHttp siteRoot href"
  by (simp add: processHrefValue_def spec_normalize_def spec_stripQuery_def
      deleteParams_takeWhile addWWW_spec addHttp_spec)

text \<open>
  C7 on the root \<^verbatim>\<open>http://x.com\<close> and the href \<^verbatim>\<open>about?x=1\<close>: a slash is put
  between them, \<^verbatim>\<open>www.\<close> is inserted, and the query is cut off.
\<close>

theorem normalize_steps_witness:
  "spec_normalize beginsWithHttp (js ''http://x.com'') (js ''about?x=1'') =
     js ''http://www.x.com/about''"
  unfolding normalize_steps [symmetric] by code_simp

text \<open>
  Claim C7 as it is written, with an href left as it is when it begins with a scheme,
  fails: \<^verbatim>\<open>ftp://y.org/f\<close> begins with a scheme, and the crawler appends it to the
  root as if it were a relative path.
\<close>

theorem normalize_scheme_counterexample:
  "processHrefValue (js ''http://www.x.com'') (js ''ftp://y.org/f'') \<noteq>
     spec_normalize beginsWithScheme (js ''http://www.x.com'') (js ''ftp://y.org/f'')"
  by code_simp

text \<open>
  Claim C8: a fetch fails when the request fails, the status is not 200 or the body is
  the empty string.  Then the promise of \<^verbatim>\<open>processPage\<close> is not rejected but resolves
  to \<^verbatim>\<open>null\<close>; merging it leaves the state as it was (no record, no link, no visited
  URL); and the block ends as the block without the page does, the request apart.  A
  level or a run is left by an exception only when there is a URL whose fetch did not
  fail and on whose body the parser throws; so where the parser throws on no fetched
  body, a run with a finite depth returns a state, whatever fetches fail.  In a run that
  returns, a URL whose fetch fails is neither stored nor visited.
\<close>

theorem failed_fetch_skipped:
  "(httpGet w u = None \<or>
      (\<exists>r. httpGet w u = Some r \<and> (status r \<noteq> 200 \<or> data r = JString [])) \<longrightarrow>
    extractUrl w u = None) \<and>
   (extractUrl w u = None \<longrightarrow>
      processPage w m u = Inr None \<and>
      mergePage None st = st \<and>
      processChunk w m (u # us) st =
        processChunk w m us (st\<lparr>requested := requested st @ [u]\<rparr>)) \<and>
   (level w m st = Inl e \<longrightarrow>
      (\<exists>v \<in> set (urlsToVisit st). \<exists>b. extractUrl w v = Some b \<and> isl (load w b))) \<and>
   (runCrawler w m d db = Some (Inl e) \<longrightarrow>
      (\<exists>v b. extractUrl w v = Some b \<and> isl (load w b))) \<and>
   ((\<forall>v b. extractUrl w v = Some b \<longrightarrow> \<not> isl (load w b)) \<longrightarrow>
      (\<exists>st'. runCrawler w m (Num r) db = Some (Inr st'))) \<and>
   (extractUrl w u = None \<longrightarrow> runCrawler w m d db = Some (Inr st') \<longrightarrow>
      u \<notin> set (storedUrls st') \<and> u \<notin> set (visitedUrls st'))"
proof (intro conjI impI)
  assume "httpGet w u = None \<or>
      (\<exists>r. httpGet w u = Some r \<and> (status r \<noteq> 200 \<or> data r = JString []))"
  then show "extractUrl w u = None"
    by (auto simp: extractUrl_def)
next
  assume "extractUrl w u = None"
  then show "processPage w m u = Inr None" by (rule processPage_failed)
next
  show "mergePage None st = st" by (rule mergePage_None)
next
  assume "extractUrl w u = None"
  then show "processChunk w m (u # us) st =
      processChunk w m us (st\<lparr>requested := requested st @ [u]\<rparr>)"
    by (rule processChunk_failed)
next
  assume "level w m st = Inl e"
  then obtain v where "v \<in> set (urlsToVisit st)" and "throws w v"
    using level_Inl by blast
  then show "\<exists>v \<in> set (urlsToVisit st). \<exists>b. extractUrl w v = Some b \<and> isl (load w b)"
    by (auto simp: throws_def split: option.splits)
next
  assume "runCrawler w m d db = Some (Inl e)"
  then obtain v where "throws w v" using runCrawler_thrown by blast
  then show "\<exists>v b. extractUrl w v = Some b \<and> isl (load w b)"
    by (auto simp: throws_def split: option.splits)
next
  assume "\<forall>v b. extractUrl w v = Some b \<longrightarrow> \<not> isl (load w b)"
  then have "\<forall>v. \<not> throws w v" by (auto simp: throws_def split: option.splits)
  then have "levels w m (nat \<lfloor>r\<rfloor>) (initial m) =
      Inr ((nextLevel w m ^^ nat \<lfloor>r\<rfloor>) (initial m))"
    by (rule levels_no_throw)
  then show "\<exists>st'. runCrawler w m (Num r) db = Some (Inr st')"
    by (simp add: runCrawler_Num)
next
  assume failed: "extractUrl w u = None" and run: "runCrawler w m d db = Some (Inr st')"
  from run obtain k where st': "st' = (nextLevel w m ^^ k) (initial m)"
    using runCrawler_levels by blast
  with failed show "u \<notin> set (visitedUrls st')"
    using levels_visited_fetched by blast
  moreover have "storedUrls st' = visitedUrls st'"
    using storeMatches_levels [where w = w and m = m and k = k]
      by (simp add: st' storeMatches_def)
  ultimately show "u \<notin> set (storedUrls st')" by simp
qed

text \<open>
  C8 on the site whose only link leads to a URL that does not answer, with depth 2: the
  request fails, the page resolves to \<^verbatim>\<open>null\<close>, level 2 ends with a state, the run
  returns, and the URL is neither stored nor visited.
\<close>

theorem failed_fetch_skipped_witness:
  "httpGet deadLinkSite urlGone = None \<and>
   extractUrl deadLinkSite urlGone = None \<and>
   processPage deadLinkSite urlA urlGone = Inr None \<and>
   processChunk deadLinkSite urlA [urlGone] dead1 =
     processChunk deadLinkSite urlA [] (dead1\<lparr>requested := requested dead1 @ [urlGone]\<rparr>) \<and>
   runCrawler deadLinkSite urlA (Num 2) [] = Some (Inr dead2) \<and>
   urlGone \<notin> set (storedUrls dead2) \<and> urlGone \<notin> set (visitedUrls dead2)"
proof -
  have get: "httpGet deadLinkSite urlGone = None" by code_simp
  note inst = failed_fetch_skipped
    [of deadLinkSite urlGone urlA dead1 "[]" Thrown "Num 2" "[]" 2 dead2]
  from inst get have failed: "extractUrl deadLinkSite urlGone = None" by blast
  with inst dead_run [of "[]"] get show ?thesis by simp
qed

text \<open>
  Claim C9, with the case that the claim overlooks set apart: let the seed contain
  \<^verbatim>\<open>://\<close>.  After any number of levels, every URL other than the seed that is in the
  frontier, was requested or is stored starts with the seed and is the normalized form
  of an href; and for every href \<open>h\<close> of which it is the normalized form (the href it
  came from is one), it contains \<^verbatim>\<open>www.\<close> unless the absolute form of \<open>h\<close> contains
  \<^verbatim>\<open>www.\<close> but not in front of its first question mark.
\<close>

theorem frontier_www:
  assumes "str_includes m (js ''://'')"
    and "levels w m k (initial m) = Inr st"
    and "u \<in> set (urlsToVisit st) \<union> set (requested st) \<union> set (storedUrls st)"
    and "u \<noteq> m"
  shows "startsWith u m \<and> (\<exists>h. u = processHrefValue m h) \<and>
         (\<forall>h. u = processHrefValue m h \<longrightarrow>
            (str_includes (addHttpIfMissing m h) (js ''www.'') \<longrightarrow>
             str_includes (deleteParamsFromUrl (addHttpIfMissing m h)) (js ''www.'')) \<longrightarrow>
            str_includes u (js ''www.''))"
proof -
  from assms(2) have st: "st = (nextLevel w m ^^ k) (initial m)" by (rule levels_Inr)
  have "set (storedUrls st) \<subseteq> set (requested st)"
    unfolding st
    using storeMatches_levels [where w = w and m = m and k = k]
      levels_visited_requested [where w = w and m = m and k = k]
    by (simp add: storeMatches_def)
  with assms(3) have "u \<in> set (urlsToVisit st) \<union> set (requested st)" by blast
  then have "u = m \<or> kept m u" unfolding st by (rule levels_kept)
  with assms(4) have adm: "startsWith u m" and ex: "\<exists>h. u = processHrefValue m h"
    by (auto simp: kept_def)
  have "\<forall>h. u = processHrefValue m h \<longrightarrow>
      (str_includes (addHttpIfMissing m h) (js ''www.'') \<longrightarrow>
       str_includes (deleteParamsFromUrl (addHttpIfMissing m h)) (js ''www.'')) \<longrightarrow>
      str_includes u (js ''www.'')"
  proof (intro allI impI)
    fix h
    assume u: "u = processHrefValue m h"
      and ok: "str_includes (addHttpIfMissing m h) (js ''www.'') \<longrightarrow>
        str_includes (deleteParamsFromUrl (addHttpIfMissing m h)) (js ''www.'')"
    show "str_includes u (js ''www.'')"
    proof (cases "str_includes (addHttpIfMissing m h) (js ''www.'')")
      case True
      with ok show ?thesis
        by (simp add: u processHrefValue_def addWWWIfMissing_def)
    next
      case False
      with assms(1) adm show ?thesis
        unfolding u by (intro www_inserted)
    qed
  qed
  with adm ex show ?thesis by blast
qed

text \<open>
  C9 on the site of the end-to-end scenario: after one level the frontier holds
  \<^verbatim>\<open>http://www.x.com/about\<close>, the normalized form of the href \<^verbatim>\<open>/about\<close>.
\<close>

theorem frontier_www_witness:
  "str_includes homeUrl (js ''://'') \<and>
   levels homeSite homeUrl 1 (initial homeUrl) = Inr homeFinal \<and>
   aboutUrl \<in> set (urlsToVisit homeFinal) \<and>
   aboutUrl \<noteq> homeUrl \<and> startsWith aboutUrl homeUrl \<and>
   aboutUrl = processHrefValue homeUrl (js ''/about'') \<and>
   str_includes (deleteParamsFromUrl (addHttpIfMissing homeUrl (js ''/about''))) (js ''www.'') \<and>
   str_includes aboutUrl (js ''www.'')"
proof -
  have h1: "str_includes homeUrl (js ''://'')" by code_simp
  have h3: "aboutUrl \<in> set (urlsToVisit homeFinal) \<union> set (requested homeFinal) \<union>
      set (storedUrls homeFinal)"
    by (simp add: homeFinal_def aboutUrl_def)
  have h4: "aboutUrl \<noteq> homeUrl" by code_simp
  have norm: "aboutUrl = processHrefValue homeUrl (js ''/about'')" by code_simp
  have ok: "str_includes (deleteParamsFromUrl (addHttpIfMissing homeUrl (js ''/about'')))
      (js ''www.'')" by code_simp
  from frontier_www [OF h1 home_levels h3 h4] norm ok
  have "startsWith aboutUrl homeUrl" and "str_includes aboutUrl (js ''www.'')" by blast+
  with h1 h4 norm ok home_levels show ?thesis
    by (simp add: homeFinal_def aboutUrl_def)
qed

text \<open>
  Claim C9 as it is written fails: the seed \<^verbatim>\<open>http://x.com/\<close> contains \<^verbatim>\<open>://\<close>, and
  its page links to \<^verbatim>\<open>/a?u=www.b\<close>.  The absolute form of the link contains \<^verbatim>\<open>www.\<close>,
  so none is inserted; then the query is cut off, and \<^verbatim>\<open>http://x.com/a\<close> enters
  the frontier of level 2.
\<close>

theorem frontier_www_counterexample:
  "str_includes bareUrl (js ''://'') \<and>
   level querySite bareUrl (initial bareUrl) = Inr query1 \<and>
   urlsToVisit query1 = [js ''http://x.com/a''] \<and>
   js ''http://x.com/a'' \<noteq> bareUrl \<and>
   \<not> str_includes (js ''http://x.com/a'') (js ''www.'')"
proof -
  have "str_includes bareUrl (js ''://'')" by code_simp
  moreover have "level querySite bareUrl (initial bareUrl) = Inr query1"
    using query_levels by (simp split: sum.splits)
  moreover have "urlsToVisit query1 = [js ''http://x.com/a'']"
    by (simp add: query1_def)
  moreover have "js ''http://x.com/a'' \<noteq> bareUrl" by code_simp
  moreover have "\<not> str_includes (js ''http://x.com/a'') (js ''www.'')" by code_simp
  ultimately show ?thesis by blast
qed

text \<open>
  Claim C10: when a page is fetched and its body loads as a document that has no title
  element, \<^verbatim>\<open>processPage\<close> returns a page, and the title of that page is the empty
  string.
\<close>

theorem no_title_empty:
  assumes "extractUrl w u = Some body"
    and "load w body = Inr elements"
    and "\<forall>e \<in> set elements. \<not> isTag e (js ''title'')"
  shows "\<exists>p. processPage w m u = Inr (Some p) \<and> title p = []"
  using assms
  by (simp add: processPage_def readPage_def Let_def fold_visitElement_title)

text \<open>
  C10 on the site whose page is one paragraph.
\<close>

theorem no_title_empty_witness:
  "extractUrl untitledSite urlA = Some (JString urlA) \<and>
   load untitledSite (JString urlA) = Inr [para (js ''Hello'')] \<and>
   \<not> isTag (para (js ''Hello'')) (js ''title'') \<and>
   map_sum id (map_option title) (processPage untitledSite urlA urlA) = Inr (Some [])"
proof -
  have h1: "extractUrl untitledSite urlA = Some (JString urlA)" by code_simp
  have doc: "load untitledSite (JString urlA) = Inr [para (js ''Hello'')]"
    by (simp add: untitledSite_def site_def)
  have tag: "\<not> isTag (para (js ''Hello'')) (js ''title'')"
    by (simp add: isTag_def para_def js_def)
  then have h3: "\<forall>e \<in> set [para (js ''Hello'')]. \<not> isTag e (js ''title'')"
    by simp
  from no_title_empty [OF h1 doc h3, of urlA]
  have "map_sum id (map_option title) (processPage untitledSite urlA urlA) = Inr (Some [])"
    by auto
  with h1 doc tag show ?thesis by simp
qed

end
